theory Spec2Isabelle
  imports Main "HOL-Library.Word" "HOL-Library.Multiset"
begin

unbundle bit_operations_syntax

chapter \<open>Model\<close>

section \<open>Common declarations\<close>

text \<open>
  The emulator writes diagnostics to a logger. A state record carries the lines written
  so far (field \<open>messages\<close>), newest last, so that "logs an error" is a fact about
  the state.
\<close>

datatype severity = DEBUG | INFO | NOTICE | WARNING | ERROR | CRITICAL

type_synonym log_line = "severity \<times> string"

text \<open>
  \<open>IntLvl\<close>, \<open>ivnum_t\<close>, \<open>flashptr_t\<close>, \<open>memptr_t\<close> and \<open>ioptr_t\<close> are
  declared in common.h. Interrupt levels are numbered NONE=0, LO=1, MED=2, HI=3, NMI=4;
  the code compares levels with \<open>>=\<close> and computes \<open>1 << (lvl-1)\<close>, so the
  numbering is kept by \<open>lvl_num\<close>. Vector numbers are below \<open>IV_MAX_COUNT = 0x80\<close>
  and are natural numbers here; flash pointers are 32-bit words.
\<close>

datatype IntLvl = INTLVL_NONE | INTLVL_LO | INTLVL_MED | INTLVL_HI | INTLVL_NMI

fun lvl_num :: "IntLvl \<Rightarrow> nat" where
  "lvl_num INTLVL_NONE = 0"
| "lvl_num INTLVL_LO = 1"
| "lvl_num INTLVL_MED = 2"
| "lvl_num INTLVL_HI = 3"
| "lvl_num INTLVL_NMI = 4"

type_synonym ivnum_t = nat

definition CCP_IOREG :: "8 word" where "CCP_IOREG = 0x1"
definition CCP_SPM :: "8 word" where "CCP_SPM = 0x2"


section \<open>block::CLK (src/block/clk.cpp)\<close>

text \<open>
  clk.h is not part of the sources at hand: the enumerators \<open>SCLKSEL_*\<close> and
  \<open>RTCSRC_*\<close>, the block's \<open>IO_SIZE\<close> and the layout of the \<open>PSCTRL\<close> bit
  fields are parameters, collected in \<open>CLK_decls\<close>.
\<close>

record CLK_decls =
  IO_SIZE :: nat
  SCLKSEL_RC2M :: "8 word"
  SCLKSEL_PLL :: "8 word"
  RTCSRC_ULP :: "8 word"
  RTCSRC_RCOSC :: "8 word"
  RTCSRC_TOSC32 :: "8 word"
  psadiv_of :: "8 word \<Rightarrow> nat"
  psbcdiv_of :: "8 word \<Rightarrow> nat"

record CLK =
  sclk :: "8 word"
  psctrl :: "8 word"
  prescalerA_div :: "32 word"
  prescalerB_div :: "32 word"
  prescalerC_div :: "32 word"
  locked :: bool
  rtcsrc :: "8 word"
  rtcen :: bool
  clk_messages :: "log_line list"

datatype clk_fault = AssertAddr

definition clk_log :: "severity \<Rightarrow> string \<Rightarrow> CLK \<Rightarrow> CLK" where
  "clk_log sev msg c = c\<lparr>clk_messages := clk_messages c @ [(sev, msg)]\<rparr>"

text \<open>
  \<open>CLK::setIo(addr, v)\<close>. The argument \<open>ccp\<close> is the value of
  \<open>device_->ccpState()\<close> at the call. A failed \<open>assert(addr < IO_SIZE)\<close> is
  \<open>Inl AssertAddr\<close>.
\<close>

definition CLK_setIo :: "CLK_decls \<Rightarrow> 8 word \<Rightarrow> nat \<Rightarrow> 8 word \<Rightarrow> CLK \<Rightarrow> clk_fault + CLK" where
  "CLK_setIo k ccp addr v c =
    (if \<not> addr < IO_SIZE k then Inl AssertAddr
     else if addr = 0x00 \<and> \<not> locked c then
       (let vsclk = v AND 0x7 in
        if vsclk > SCLKSEL_PLL k then Inr (clk_log ERROR ''invalid SCLKSEL value'' c)
        else Inr (c\<lparr>sclk := vsclk\<rparr>))
     else if addr = 0x01 \<and> \<not> locked c then
       (let vreg = v AND 0x7F in
        if psadiv_of k vreg > 9 then Inr (clk_log ERROR ''invalid PSADIV value'' c)
        else Inr (c\<lparr>psctrl := vreg,
                   prescalerA_div := push_bit (psadiv_of k vreg) 1,
                   prescalerB_div :=
                     (if (word_of_nat (psbcdiv_of k vreg) :: 8 word) AND 2 \<noteq> 0
                      then push_bit (4 - psbcdiv_of k vreg) 1 else 1),
                   prescalerC_div :=
                     push_bit (unat ((word_of_nat (psbcdiv_of k vreg) :: 8 word) AND 1)) 1\<rparr>))
     else if addr = 0x02 then
       (if \<not> locked c \<and> v \<noteq> 0 then
          (if ccp AND CCP_IOREG \<noteq> 0
           then Inr ((clk_log NOTICE ''locked CLK.CTRL and CLK.PSCTRL'' c)\<lparr>locked := True\<rparr>)
           else Inr (clk_log ERROR ''cannot set CLK.LOCK: protected by CCP'' c))
        else if locked c \<and> v = 0 then Inr (clk_log ERROR ''CLK.LOCK cannot be cleared'' c)
        else Inr c)
     else if addr = 0x03 then
       (let c1 = c\<lparr>rtcen := (v AND 1 \<noteq> 0)\<rparr>;
            vsrc = (drop_bit 1 v) AND 7 in
        if vsrc \<le> RTCSRC_RCOSC k \<or> vsrc = RTCSRC_TOSC32 k
        then Inr (c1\<lparr>rtcsrc := vsrc\<rparr>)
        else Inr (clk_log ERROR ''invalid RTCSRC value'' c1))
     else Inr (clk_log ERROR ''I/O write: not writable'' c))"

text \<open>\<open>CLK::reset()\<close>.\<close>

definition CLK_reset :: "CLK_decls \<Rightarrow> CLK \<Rightarrow> CLK" where
  "CLK_reset k c = c\<lparr>sclk := SCLKSEL_RC2M k, psctrl := 0,
     prescalerA_div := 1, prescalerB_div := 1, prescalerC_div := 1,
     locked := False, rtcsrc := RTCSRC_ULP k, rtcen := False\<rparr>"

text \<open>A sequence of I/O writes \<open>(ccp, addr, v)\<close>, stopping at the first failed assertion.\<close>

fun CLK_writes :: "CLK_decls \<Rightarrow> (8 word \<times> nat \<times> 8 word) list \<Rightarrow> CLK \<Rightarrow> clk_fault + CLK" where
  "CLK_writes k [] c = Inr c"
| "CLK_writes k ((ccp, addr, v) # ws) c =
     (case CLK_setIo k ccp addr v c of Inl e \<Rightarrow> Inl e | Inr c' \<Rightarrow> CLK_writes k ws c')"


section \<open>Pending interrupts (Device::setIvLvl, src/device.cpp)\<close>

text \<open>
  \<open>iv_pending_\<close> holds four \<open>std::set<ivnum_t>\<close>. \<open>erase(iv)\<close> returns the number
  of elements removed, \<open>insert(iv).second\<close> tells whether the element was new.
\<close>

record iv_pending =
  lo :: "ivnum_t set"
  med :: "ivnum_t set"
  hi :: "ivnum_t set"
  nmi :: "ivnum_t set"

definition setIvLvl :: "ivnum_t \<Rightarrow> IntLvl \<Rightarrow> iv_pending \<Rightarrow> iv_pending" where
  "setIvLvl iv lvl p =
    (case lvl of
       INTLVL_NONE \<Rightarrow>
         (if iv \<in> lo p then p\<lparr>lo := lo p - {iv}\<rparr>
          else if iv \<in> med p then p\<lparr>med := med p - {iv}\<rparr>
          else if iv \<in> hi p then p\<lparr>hi := hi p - {iv}\<rparr>
          else if iv \<in> nmi p then p\<lparr>nmi := nmi p - {iv}\<rparr>
          else p)
     | INTLVL_LO \<Rightarrow>
         (if iv \<in> lo p then p
          else let q = p\<lparr>lo := insert iv (lo p)\<rparr> in
            if iv \<in> med q then q\<lparr>med := med q - {iv}\<rparr>
            else if iv \<in> hi q then q\<lparr>hi := hi q - {iv}\<rparr>
            else if iv \<in> nmi q then q\<lparr>nmi := nmi q - {iv}\<rparr>
            else q)
     | INTLVL_MED \<Rightarrow>
         (if iv \<in> med p then p
          else let q = p\<lparr>med := insert iv (med p)\<rparr> in
            if iv \<in> lo q then q\<lparr>lo := lo q - {iv}\<rparr>
            else if iv \<in> hi q then q\<lparr>hi := hi q - {iv}\<rparr>
            else if iv \<in> nmi q then q\<lparr>nmi := nmi q - {iv}\<rparr>
            else q)
     | INTLVL_HI \<Rightarrow>
         (if iv \<in> hi p then p
          else let q = p\<lparr>hi := insert iv (hi p)\<rparr> in
            if iv \<in> lo q then q\<lparr>lo := lo q - {iv}\<rparr>
            else if iv \<in> med q then q\<lparr>med := med q - {iv}\<rparr>
            else if iv \<in> nmi q then q\<lparr>nmi := nmi q - {iv}\<rparr>
            else q)
     | INTLVL_NMI \<Rightarrow>
         (if iv \<in> nmi p then p
          else let q = p\<lparr>nmi := insert iv (nmi p)\<rparr> in
            if iv \<in> lo q then q\<lparr>lo := lo q - {iv}\<rparr>
            else if iv \<in> med q then q\<lparr>med := med q - {iv}\<rparr>
            else if iv \<in> hi q then q\<lparr>hi := hi q - {iv}\<rparr>
            else q))"

text \<open>The queues of a freshly constructed device are empty.\<close>

definition iv_pending_init :: iv_pending where
  "iv_pending_init = \<lparr>lo = {}, med = {}, hi = {}, nmi = {}\<rparr>"

fun setIvLvl_calls :: "(ivnum_t \<times> IntLvl) list \<Rightarrow> iv_pending \<Rightarrow> iv_pending" where
  "setIvLvl_calls [] p = p"
| "setIvLvl_calls ((iv, lvl) # cs) p = setIvLvl_calls cs (setIvLvl iv lvl p)"

text \<open>The queue of a level, and the number of queues a vector is a member of.\<close>

fun queue_of :: "IntLvl \<Rightarrow> iv_pending \<Rightarrow> ivnum_t set" where
  "queue_of INTLVL_NONE p = {}"
| "queue_of INTLVL_LO p = lo p"
| "queue_of INTLVL_MED p = med p"
| "queue_of INTLVL_HI p = hi p"
| "queue_of INTLVL_NMI p = nmi p"

definition membership :: "ivnum_t \<Rightarrow> iv_pending \<Rightarrow> nat" where
  "membership iv p =
     (if iv \<in> lo p then 1 else 0) + (if iv \<in> med p then 1 else 0) +
     (if iv \<in> hi p then 1 else 0) + (if iv \<in> nmi p then 1 else 0)"

section \<open>Device state (device.h, block/cpu.h, block/pmic.h)\<close>

text \<open>
  A block as the device sees it: its name, the base of its interrupt vectors, the base
  of its I/O addresses and what \<open>getIo\<close> returns at a local address.
\<close>

record Block =
  name :: string
  iv_base :: ivnum_t
  io_addr :: nat
  getIo :: "nat \<Rightarrow> 8 word"

text \<open>
  The fields of \<open>Device\<close>, with those of the CPU and PMIC blocks that the device
  reads and writes directly (\<open>cpu_.sreg_\<close>, \<open>cpu_.sp_\<close>, \<open>cpu_.pc_\<close>,
  \<open>pmic_.status_\<close>, \<open>pmic_.ctrl_\<close>). \<open>regfile_\<close> is an array of 32 bytes,
  indexed by register number. \<open>iv_blocks_\<close> and \<open>io_blocks_\<close> map to the owning
  block, \<open>None\<close> for a null pointer. \<open>messages\<close> are the lines written to the
  logger at error or critical severity, \<open>iv_executed\<close> the calls of
  \<open>Block::executeIv\<close> made so far, as (block name, local vector number).
\<close>

record Device =
  flash_size :: "32 word"
  flash_boot_start :: "32 word"
  flash_data :: "16 word list"
  regfile :: "nat \<Rightarrow> 8 word"
  sram_data :: "8 word list"
  sreg :: "8 word"
  sp :: "16 word"
  pc :: "32 word"
  ccp_ioreg_cycles :: nat
  ccp_spm_cycles :: nat
  pmic_status :: "8 word"
  lolvlen :: bool
  medlvlen :: bool
  hilvlen :: bool
  ivsel :: bool
  pending :: iv_pending
  iv_blocks :: "ivnum_t \<Rightarrow> Block option"
  io_blocks :: "nat \<Rightarrow> Block option"
  instruction_cycles :: nat
  interrupt_wait_instruction :: bool
  breaked :: bool
  messages :: "log_line list"
  iv_executed :: "(string \<times> ivnum_t) list"

definition MEM_SRAM_START :: nat where "MEM_SRAM_START = 0x2000"
definition IV_MAX_COUNT :: nat where "IV_MAX_COUNT = 0x80"

text \<open>
  What in C++ is undefined behaviour or a failed assertion is a fault of the model:
  a read of \<open>flash_data_\<close> beyond its size, \<open>stack()\<close> outside \<open>sram_data_\<close>,
  \<open>iv_blocks_\<close> indexed beyond \<open>IV_MAX_COUNT\<close>, \<open>assert(block)\<close> on a null
  pointer.
\<close>

datatype fault = FlashRange | StackRange | IvRange | AssertBlock

definition log_msg :: "severity \<Rightarrow> string \<Rightarrow> Device \<Rightarrow> Device" where
  "log_msg sev msg d = d\<lparr>messages := messages d @ [(sev, msg)]\<rparr>"

text \<open>
  Modelled from the spec: cpu.h, which defines \<open>CPU::ccpState()\<close>, is not part of the
  sources at hand. The state read in the CCP register has bit \<open>CCP_IOREG\<close> set while
  the I/O-register window is open (its cycle counter is non-zero) and bit \<open>CCP_SPM\<close>
  while the SPM window is open.
\<close>

definition ccpState :: "Device \<Rightarrow> 8 word" where
  "ccpState d = (if ccp_ioreg_cycles d > 0 then CCP_IOREG else 0) OR
                (if ccp_spm_cycles d > 0 then CCP_SPM else 0)"

text \<open>
  Modelled from the spec: the bit fields of \<open>SREG\<close> (cpu.h) and of the PMIC status
  register (pmic.h) are not part of the sources at hand. The flags C, Z, N, V, S, H, T, I
  are bits 0 to 7 of \<open>sreg\<close>; the status bit of a level is \<open>1 << (level-1)\<close>:
  \<open>lolvlex\<close> bit 0, \<open>medlvlex\<close> bit 1, \<open>hilvlex\<close> bit 2, \<open>nmiex\<close> bit 3.
  Assigning to a one-bit field stores whether the assigned value is non-zero.
\<close>

definition sreg_C :: nat where "sreg_C = 0"
definition sreg_Z :: nat where "sreg_Z = 1"
definition sreg_I :: nat where "sreg_I = 7"

definition lolvlex :: nat where "lolvlex = 0"
definition medlvlex :: nat where "medlvlex = 1"
definition hilvlex :: nat where "hilvlex = 2"
definition nmiex :: nat where "nmiex = 3"

definition assign_bit :: "nat \<Rightarrow> bool \<Rightarrow> 8 word \<Rightarrow> 8 word" where
  "assign_bit n b w = (if b then set_bit n w else unset_bit n w)"

text \<open>
  \<open>stack_get<N>\<close> and \<open>stack_set<N>\<close> (common.h) are not part of the sources at
  hand; they are parameters. Each takes the index into \<open>sram_data_\<close> that
  \<open>stack()\<close> points to.
\<close>

record stack_decls =
  stack_get16 :: "nat \<Rightarrow> 8 word list \<Rightarrow> 32 word"
  stack_get24 :: "nat \<Rightarrow> 8 word list \<Rightarrow> 32 word"
  stack_set16 :: "nat \<Rightarrow> 32 word \<Rightarrow> 8 word list \<Rightarrow> 8 word list"
  stack_set24 :: "nat \<Rightarrow> 32 word \<Rightarrow> 8 word list \<Rightarrow> 8 word list"

text \<open>\<open>Device::stack()\<close>: the index of \<open>&sram_data_[cpu_.sp_ - MEM_SRAM_START]\<close>.\<close>

definition stack :: "Device \<Rightarrow> nat option" where
  "stack d =
     (if MEM_SRAM_START \<le> unat (sp d) \<and> unat (sp d) - MEM_SRAM_START < length (sram_data d)
      then Some (unat (sp d) - MEM_SRAM_START) else None)"

definition flash_at :: "Device \<Rightarrow> 32 word \<Rightarrow> 16 word option" where
  "flash_at d a = (if unat a < length (flash_data d) then Some (flash_data d ! unat a) else None)"


section \<open>Interrupt controller (src/device.cpp)\<close>

text \<open>\<open>Device::currentIntLvl()\<close>.\<close>

definition currentIntLvl :: "Device \<Rightarrow> IntLvl" where
  "currentIntLvl d =
     (let intlvlex = pmic_status d in
      if intlvlex = 0 then INTLVL_NONE
      else if intlvlex AND push_bit (lvl_num INTLVL_NMI - 1) 1 \<noteq> 0 then INTLVL_NMI
      else if intlvlex AND push_bit (lvl_num INTLVL_HI - 1) 1 \<noteq> 0 then INTLVL_HI
      else if intlvlex AND push_bit (lvl_num INTLVL_MED - 1) 1 \<noteq> 0 then INTLVL_MED
      else if intlvlex AND push_bit (lvl_num INTLVL_LO - 1) 1 \<noteq> 0 then INTLVL_LO
      else INTLVL_NONE)"

text \<open>\<open>Device::getIoMem(addr)\<close>: the value read, and the device with the error logged.\<close>

definition getIoMem :: "nat \<Rightarrow> Device \<Rightarrow> 8 word \<times> Device" where
  "getIoMem addr d =
     (case io_blocks d addr of
        None \<Rightarrow> (0, log_msg ERROR ''invalid I/O address to read (no block)'' d)
      | Some block \<Rightarrow> (getIo block (addr - io_addr block), d))"

text \<open>Writing one of the four pending queues through \<open>iv_queue\<close>.\<close>

fun set_queue :: "IntLvl \<Rightarrow> ivnum_t set \<Rightarrow> iv_pending \<Rightarrow> iv_pending" where
  "set_queue INTLVL_NONE q p = p"
| "set_queue INTLVL_LO q p = p\<lparr>lo := q\<rparr>"
| "set_queue INTLVL_MED q p = p\<lparr>med := q\<rparr>"
| "set_queue INTLVL_HI q p = p\<lparr>hi := q\<rparr>"
| "set_queue INTLVL_NMI q p = p\<lparr>nmi := q\<rparr>"

text \<open>
  The second half of \<open>Device::processPendingInterrupts()\<close>, reached with
  \<open>intlvl_new\<close> and \<open>iv_queue\<close> chosen: take the first vector of the queue, set
  the status bit, call the block's \<open>executeIv\<close>, push the PC and jump to the vector.
\<close>

definition acknowledge :: "stack_decls \<Rightarrow> IntLvl \<Rightarrow> Device \<Rightarrow> fault + Device \<times> bool" where
  "acknowledge k intlvl_new d =
     (let iv_queue = queue_of intlvl_new (pending d);
          iv_num = Min iv_queue;
          d1 = d\<lparr>pending := set_queue intlvl_new (iv_queue - {iv_num}) (pending d)\<rparr>;
          d2 = d1\<lparr>pmic_status := pmic_status d1 OR push_bit (lvl_num intlvl_new - 1) 1\<rparr>;
          iv_addr = (if ivsel d2 then 2 * word_of_nat iv_num + flash_boot_start d2
                     else 2 * word_of_nat iv_num)
      in if \<not> iv_num < IV_MAX_COUNT then Inl IvRange
         else case iv_blocks d2 iv_num of
           None \<Rightarrow> Inl AssertBlock
         | Some block \<Rightarrow>
            (let d3 = d2\<lparr>iv_executed := iv_executed d2 @ [(name block, iv_num - iv_base block)]\<rparr>
             in case stack d3 of
               None \<Rightarrow> Inl StackRange
             | Some p \<Rightarrow>
                (let d4 = (if flash_size d3 \<le> 0x20000
                           then d3\<lparr>sram_data := stack_set16 k p (pc d3) (sram_data d3),
                                   sp := sp d3 - 2\<rparr>
                           else d3\<lparr>sram_data := stack_set24 k p (pc d3) (sram_data d3),
                                   sp := sp d3 - 3\<rparr>)
                 in Inr (d4\<lparr>pc := iv_addr\<rparr>, True))))"

text \<open>\<open>Device::processPendingInterrupts()\<close>: the device and the value returned.\<close>

definition processPendingInterrupts :: "stack_decls \<Rightarrow> Device \<Rightarrow> fault + Device \<times> bool" where
  "processPendingInterrupts k d =
     (let intlvl = currentIntLvl d in
      if lvl_num intlvl \<ge> lvl_num INTLVL_NMI then Inr (d, False)
      else if nmi (pending d) \<noteq> {} then acknowledge k INTLVL_NMI d
      else if lvl_num intlvl \<ge> lvl_num INTLVL_HI then Inr (d, False)
      else if hilvlen d \<and> hi (pending d) \<noteq> {} then acknowledge k INTLVL_HI d
      else if lvl_num intlvl \<ge> lvl_num INTLVL_MED then Inr (d, False)
      else if medlvlen d \<and> med (pending d) \<noteq> {} then acknowledge k INTLVL_MED d
      else if lvl_num intlvl \<ge> lvl_num INTLVL_LO then Inr (d, False)
      else if lolvlen d \<and> lo (pending d) \<noteq> {} then acknowledge k INTLVL_LO d
      else Inr (d, False))"


text \<open>
  The arbitration as a function of the state: the level whose queue is served, or
  \<open>INTLVL_NONE\<close>. NMI is served when an NMI vector is pending and the current level
  is below NMI; HI when \<open>hilvlen\<close> is set, the HI queue is non-empty and the current
  level is below HI; MED and LO likewise.
\<close>

definition arbitration :: "Device \<Rightarrow> IntLvl" where
  "arbitration d =
     (let cur = lvl_num (currentIntLvl d) in
      if nmi (pending d) \<noteq> {} \<and> cur < lvl_num INTLVL_NMI then INTLVL_NMI
      else if hilvlen d \<and> hi (pending d) \<noteq> {} \<and> cur < lvl_num INTLVL_HI then INTLVL_HI
      else if medlvlen d \<and> med (pending d) \<noteq> {} \<and> cur < lvl_num INTLVL_MED then INTLVL_MED
      else if lolvlen d \<and> lo (pending d) \<noteq> {} \<and> cur < lvl_num INTLVL_LO then INTLVL_LO
      else INTLVL_NONE)"

text \<open>
  The same with NMI served whenever an NMI vector is pending, whatever the current
  level.
\<close>

definition arbitration_claimed :: "Device \<Rightarrow> IntLvl" where
  "arbitration_claimed d =
     (let cur = lvl_num (currentIntLvl d) in
      if nmi (pending d) \<noteq> {} then INTLVL_NMI
      else if hilvlen d \<and> hi (pending d) \<noteq> {} \<and> cur < lvl_num INTLVL_HI then INTLVL_HI
      else if medlvlen d \<and> med (pending d) \<noteq> {} \<and> cur < lvl_num INTLVL_MED then INTLVL_MED
      else if lolvlen d \<and> lo (pending d) \<noteq> {} \<and> cur < lvl_num INTLVL_LO then INTLVL_LO
      else INTLVL_NONE)"


section \<open>Instruction decoder and executor (Device::executeNextInstruction)\<close>

text \<open>
  The branches of the \<open>if\<close>/\<open>else if\<close> chain, in the order of the source. The
  branches whose bodies are embedded below have a constructor of their own; the others
  are \<open>OTHER\<close> with the mnemonic of the source's comment.
\<close>

datatype opclass = NOPE | FMULS | FMULSU | SBRC_SBRS | SBIC_SBIS | CPSE | RET | RETI
  | POP | PUSH | UNKNOWN | OTHER string

definition decode :: "16 word \<Rightarrow> opclass" where
  "decode opcode =
    (if opcode = 0 then NOPE
     else if opcode AND 0xFF8F = 0x9408 then OTHER ''BSET''
     else if opcode AND 0xFF8F = 0x9488 then OTHER ''BCLR''
     else if opcode AND 0xFF00 = 0x9A00 then OTHER ''SBI''
     else if opcode AND 0xFF00 = 0x9800 then OTHER ''CBI''
     else if opcode AND 0xFE0F = 0x9400 then OTHER ''COM''
     else if opcode AND 0xFE0F = 0x9401 then OTHER ''NEG''
     else if opcode AND 0xFE0F = 0x9402 then OTHER ''SWAP''
     else if opcode AND 0xFE0F = 0x9403 then OTHER ''INC''
     else if opcode AND 0xFE0F = 0x9405 then OTHER ''ASR''
     else if opcode AND 0xFE0F = 0x9406 then OTHER ''LSR''
     else if opcode AND 0xFE0F = 0x9407 then OTHER ''ROR''
     else if opcode AND 0xFE0F = 0x940A then OTHER ''DEC''
     else if opcode AND 0xFC00 = 0x1400 then OTHER ''CP''
     else if opcode AND 0xFC00 = 0x0400 then OTHER ''CPC''
     else if opcode AND 0xFC00 = 0x0C00 then OTHER ''ADD, LSL''
     else if opcode AND 0xFC00 = 0x1C00 then OTHER ''ADC, ROL''
     else if opcode AND 0xFC00 = 0x1800 then OTHER ''SUB''
     else if opcode AND 0xFC00 = 0x0800 then OTHER ''SBC''
     else if opcode AND 0xFC00 = 0x9C00 then OTHER ''MUL''
     else if opcode AND 0xFF00 = 0x0200 then OTHER ''MULS''
     else if opcode AND 0xFF88 = 0x0300 then OTHER ''MULSU''
     else if opcode AND 0xFF88 = 0x0308 then OTHER ''FMUL''
     else if opcode AND 0xFF88 = 0x0380 then FMULS
     else if opcode AND 0xFF88 = 0x0380 then FMULSU
     else if opcode AND 0xFC00 = 0x2000 then OTHER ''AND, TST''
     else if opcode AND 0xFC00 = 0x2400 then OTHER ''EOR, CLR''
     else if opcode AND 0xFC00 = 0x2800 then OTHER ''OR''
     else if opcode AND 0xFC00 = 0x2C00 then OTHER ''MOV''
     else if opcode AND 0xF000 = 0x3000 then OTHER ''CPI''
     else if opcode AND 0xF000 = 0x5000 then OTHER ''SUBI''
     else if opcode AND 0xF000 = 0x4000 then OTHER ''SBCI''
     else if opcode AND 0xF000 = 0x7000 then OTHER ''ANDI, CBR''
     else if opcode AND 0xF000 = 0x6000 then OTHER ''ORI, SBR''
     else if opcode AND 0xFF00 = 0x0100 then OTHER ''MOVW''
     else if opcode AND 0xFF00 = 0x9600 then OTHER ''ADIW''
     else if opcode AND 0xFF00 = 0x9700 then OTHER ''SBIW''
     else if opcode AND 0xFE08 = 0xF800 then OTHER ''BLD''
     else if opcode AND 0xFE08 = 0xFA00 then OTHER ''BST''
     else if opcode AND 0xF000 = 0xE000 then OTHER ''LDI, SER''
     else if opcode AND 0xFE0F = 0x9000 then OTHER ''LDS (16-bit)''
     else if opcode AND 0xFE0F = 0x900C then OTHER ''LD (X i)''
     else if opcode AND 0xFE0F = 0x900D then OTHER ''LD (X ii)''
     else if opcode AND 0xFE0F = 0x900E then OTHER ''LD (X iii)''
     else if opcode AND 0xD208 = 0x8008 then OTHER ''LD (Y i), LDD (Y iv)''
     else if opcode AND 0xFE0F = 0x9009 then OTHER ''LD (Y ii)''
     else if opcode AND 0xFE0F = 0x900A then OTHER ''LD (Y iii)''
     else if opcode AND 0xD208 = 0x8000 then OTHER ''LD (Z i), LDD (Z iv)''
     else if opcode AND 0xFE0F = 0x9001 then OTHER ''LD (Z ii)''
     else if opcode AND 0xFE0F = 0x9002 then OTHER ''LD (Z iii)''
     else if opcode AND 0xFE0F = 0x9200 then OTHER ''STS (16-bit)''
     else if opcode AND 0xFE0F = 0x920C then OTHER ''ST (X i)''
     else if opcode AND 0xFE0F = 0x920D then OTHER ''ST (X ii)''
     else if opcode AND 0xFE0F = 0x920E then OTHER ''ST (X iii)''
     else if opcode AND 0xD208 = 0x8208 then OTHER ''ST (Y i), STD (Y iv)''
     else if opcode AND 0xFE0F = 0x9209 then OTHER ''ST (Y ii)''
     else if opcode AND 0xFE0F = 0x920A then OTHER ''ST (Y iii)''
     else if opcode AND 0xD208 = 0x8200 then OTHER ''ST (Z i), STD (Z iv)''
     else if opcode AND 0xFE0F = 0x9201 then OTHER ''ST (Z ii)''
     else if opcode AND 0xFE0F = 0x9202 then OTHER ''ST (Z iii)''
     else if opcode = 0x95C8 then OTHER ''LPM (i)''
     else if opcode AND 0xFE0E = 0x9004 then OTHER ''LPM (ii), (iii)''
     else if opcode = 0x95D8 then OTHER ''ELPM (i)''
     else if opcode AND 0xFE0E = 0x9006 then OTHER ''ELPM (ii), (iii)''
     else if opcode = 0x95E8 \<or> opcode = 0x95F8 then OTHER ''SPM, SPM#2''
     else if opcode AND 0xFE0F = 0x9204 then OTHER ''XCH''
     else if opcode AND 0xFE0F = 0x9206 then OTHER ''LAC''
     else if opcode AND 0xFE0F = 0x9205 then OTHER ''LAS''
     else if opcode AND 0xFE0F = 0x9207 then OTHER ''LAT''
     else if opcode AND 0xFE0E = 0x940C then OTHER ''JMP''
     else if opcode AND 0xF000 = 0xC000 then OTHER ''RJMP''
     else if opcode = 0x9409 then OTHER ''IJMP''
     else if opcode = 0x9419 then OTHER ''EIJMP''
     else if opcode AND 0xF800 = 0xF000 then OTHER ''BRBC, BRBS''
     else if opcode AND 0xFC00 = 0xFC00 then SBRC_SBRS
     else if opcode AND 0xFD00 = 0x9900 then SBIC_SBIS
     else if opcode AND 0xFC00 = 0x1000 then CPSE
     else if opcode AND 0xFE0E = 0x940E then OTHER ''CALL''
     else if opcode AND 0xF000 = 0xD000 then OTHER ''RCALL''
     else if opcode = 0x9509 then OTHER ''ICALL''
     else if opcode = 0x9519 then OTHER ''EICALL''
     else if opcode = 0x9508 then RET
     else if opcode = 0x9518 then RETI
     else if opcode AND 0xFE0F = 0x900F then POP
     else if opcode AND 0xFE0F = 0x920F then PUSH
     else if opcode AND 0xF800 = 0xB000 then OTHER ''IN''
     else if opcode AND 0xF800 = 0xB800 then OTHER ''OUT''
     else if opcode = 0x95A8 then OTHER ''WDR''
     else if opcode = 0x9588 then OTHER ''SLEEP''
     else if opcode = 0x9598 then OTHER ''BREAK''
     else if opcode AND 0xFF0F = 0x940B then OTHER ''DES''
     else UNKNOWN)"

text \<open>\<open>opcode_is_32b\<close>: true for the 2-word instructions JMP, CALL, LDS, STS.\<close>

definition opcode_is_32b :: "16 word \<Rightarrow> bool" where
  "opcode_is_32b opcode = (opcode AND 0xFE0C = 0x940C \<or> opcode AND 0xFC0F = 0x9000)"

text \<open>
  Modelled from the spec: \<open>u8_to_s16\<close> and \<open>Register<16>\<close> (common.h) are not part
  of the sources at hand. \<open>u8_to_s16\<close> reads a byte as a signed value; an assignment
  to \<open>reg01_\<close> stores a 16-bit value in r1:r0, low byte in r0.
\<close>

definition u8_to_s16 :: "8 word \<Rightarrow> 16 word" where
  "u8_to_s16 v = scast v"

definition set_reg01 :: "16 word \<Rightarrow> (nat \<Rightarrow> 8 word) \<Rightarrow> (nat \<Rightarrow> 8 word)" where
  "set_reg01 R rf = rf(0 := ucast R, 1 := ucast (drop_bit 8 R))"

text \<open>The body shared by the three skip instructions once the condition holds.\<close>

definition skip_next :: "nat \<Rightarrow> Device \<Rightarrow> fault + Device \<times> nat" where
  "skip_next cycles16 d =
     (case flash_at d (pc d + 1) of
        None \<Rightarrow> Inl FlashRange
      | Some opcode2 \<Rightarrow>
          if opcode_is_32b opcode2 then Inr (d\<lparr>pc := pc d + 3\<rparr>, 3)
          else Inr (d\<lparr>pc := pc d + 2\<rparr>, cycles16))"

text \<open>
  The bodies of the branches. Each returns the device and \<open>opcode_cycles\<close>. In
  SBRC/SBRS the source sets \<open>opcode_cycles = 3\<close> on both sides of
  \<open>opcode_is_32b\<close>; in SBIC/SBIS and CPSE it sets 3 and 2.
\<close>

definition exec_FMULS :: "16 word \<Rightarrow> Device \<Rightarrow> fault + Device \<times> nat" where
  "exec_FMULS opcode d =
     (let dd = unat ((drop_bit 4 opcode AND 0x7) OR 0x10);
          r = unat ((opcode AND 0x7) OR 0x10);
          Rd = u8_to_s16 (regfile d dd);
          Rr = u8_to_s16 (regfile d r);
          R = Rd * Rr;
          c = (R AND 0x8000 \<noteq> 0);
          R' = push_bit 1 R
      in Inr (d\<lparr>regfile := set_reg01 R' (regfile d),
                sreg := assign_bit sreg_Z (R' = 0) (assign_bit sreg_C c (sreg d)),
                pc := pc d + 1\<rparr>, 2))"

definition exec_FMULSU :: "16 word \<Rightarrow> Device \<Rightarrow> fault + Device \<times> nat" where
  "exec_FMULSU opcode d =
     (let dd = unat ((drop_bit 4 opcode AND 0x7) OR 0x10);
          r = unat ((opcode AND 0x7) OR 0x10);
          Rd = u8_to_s16 (regfile d dd);
          Rr = (ucast (regfile d r) :: 16 word);
          R = Rd * Rr;
          c = (R AND 0x8000 \<noteq> 0);
          R' = push_bit 1 R
      in Inr (d\<lparr>regfile := set_reg01 R' (regfile d),
                sreg := assign_bit sreg_Z (R' = 0) (assign_bit sreg_C c (sreg d)),
                pc := pc d + 1\<rparr>, 2))"

definition exec_SBRC_SBRS :: "16 word \<Rightarrow> Device \<Rightarrow> fault + Device \<times> nat" where
  "exec_SBRC_SBRS opcode d =
     (let r = unat (drop_bit 4 opcode AND 0x1F);
          b = unat (opcode AND 7)
      in if (drop_bit b (ucast (regfile d r) :: 32 word) XOR drop_bit 9 (ucast opcode)) AND 1 = 0
         then skip_next 3 d
         else Inr (d\<lparr>pc := pc d + 1\<rparr>, 1))"

definition exec_SBIC_SBIS :: "16 word \<Rightarrow> Device \<Rightarrow> fault + Device \<times> nat" where
  "exec_SBIC_SBIS opcode d =
     (let a = unat (drop_bit 3 opcode AND 0x1F);
          b = unat (opcode AND 7);
          (v, d1) = getIoMem a d
      in if (drop_bit b (ucast v :: 32 word) XOR drop_bit 9 (ucast opcode)) AND 1 = 0
         then skip_next 2 d1
         else Inr (d1\<lparr>pc := pc d1 + 1\<rparr>, 1))"

definition exec_CPSE :: "16 word \<Rightarrow> Device \<Rightarrow> fault + Device \<times> nat" where
  "exec_CPSE opcode d =
     (let dd = unat (drop_bit 4 opcode AND 0x1F);
          r = unat ((opcode AND 0xF) OR (drop_bit 5 opcode AND 0x10));
          Rd = regfile d dd;
          Rr = regfile d r
      in if Rd = Rr then skip_next 2 d
         else Inr (d\<lparr>pc := pc d + 1\<rparr>, 1))"

text \<open>The pop of the return PC shared by RET and RETI.\<close>

definition pop_pc :: "stack_decls \<Rightarrow> Device \<Rightarrow> fault + Device \<times> nat" where
  "pop_pc k d =
     (if flash_size d \<le> 0x20000 then
        (let d1 = d\<lparr>sp := sp d + 2\<rparr> in
         case stack d1 of None \<Rightarrow> Inl StackRange
         | Some p \<Rightarrow> Inr (d1\<lparr>pc := stack_get16 k p (sram_data d1)\<rparr>, 2))
      else
        (let d1 = d\<lparr>sp := sp d + 3\<rparr> in
         case stack d1 of None \<Rightarrow> Inl StackRange
         | Some p \<Rightarrow> Inr (d1\<lparr>pc := stack_get24 k p (sram_data d1)\<rparr>, 3)))"

definition exec_RETI :: "stack_decls \<Rightarrow> Device \<Rightarrow> fault + Device \<times> nat" where
  "exec_RETI k d =
     (let d1 =
        (if bit (pmic_status d) nmiex then d\<lparr>pmic_status := unset_bit nmiex (pmic_status d)\<rparr>
         else if bit (pmic_status d) hilvlex then d\<lparr>pmic_status := unset_bit hilvlex (pmic_status d)\<rparr>
         else if bit (pmic_status d) medlvlex then d\<lparr>pmic_status := unset_bit medlvlex (pmic_status d)\<rparr>
         else if bit (pmic_status d) lolvlex then d\<lparr>pmic_status := unset_bit lolvlex (pmic_status d)\<rparr>
         else log_msg CRITICAL ''RETI but no active interruption'' d)
      in pop_pc k d1)"

definition exec_POP :: "16 word \<Rightarrow> Device \<Rightarrow> fault + Device \<times> nat" where
  "exec_POP opcode d =
     (let dd = unat (drop_bit 4 opcode AND 0x1F);
          d1 = d\<lparr>sp := sp d + 1\<rparr>
      in case stack d1 of None \<Rightarrow> Inl StackRange
         | Some p \<Rightarrow>
             Inr (d1\<lparr>regfile := (regfile d1)(dd := sram_data d1 ! p), pc := pc d1 + 1\<rparr>, 1))"

definition exec_PUSH :: "16 word \<Rightarrow> Device \<Rightarrow> fault + Device \<times> nat" where
  "exec_PUSH opcode d =
     (let r = unat (drop_bit 4 opcode AND 0x1F)
      in case stack d of None \<Rightarrow> Inl StackRange
         | Some p \<Rightarrow>
             Inr (d\<lparr>sram_data := (sram_data d)[p := regfile d r], sp := sp d - 1,
                     pc := pc d + 1\<rparr>, 1))"

text \<open>
  \<open>Device::executeNextInstruction()\<close>. The bodies of the branches that are not
  embedded above are the parameter \<open>other\<close>, applied to the branch's mnemonic and the
  opcode.
\<close>

definition executeNextInstruction ::
  "stack_decls \<Rightarrow> (string \<Rightarrow> 16 word \<Rightarrow> Device \<Rightarrow> fault + Device \<times> nat) \<Rightarrow> Device
     \<Rightarrow> fault + Device \<times> nat" where
  "executeNextInstruction k other d =
     (case flash_at d (pc d) of
        None \<Rightarrow> Inl FlashRange
      | Some opcode \<Rightarrow>
         (case decode opcode of
            NOPE \<Rightarrow> Inr (d\<lparr>pc := pc d + 1\<rparr>, 1)
          | FMULS \<Rightarrow> exec_FMULS opcode d
          | FMULSU \<Rightarrow> exec_FMULSU opcode d
          | SBRC_SBRS \<Rightarrow> exec_SBRC_SBRS opcode d
          | SBIC_SBIS \<Rightarrow> exec_SBIC_SBIS opcode d
          | CPSE \<Rightarrow> exec_CPSE opcode d
          | RET \<Rightarrow> pop_pc k d
          | RETI \<Rightarrow> exec_RETI k d
          | POP \<Rightarrow> exec_POP opcode d
          | PUSH \<Rightarrow> exec_PUSH opcode d
          | UNKNOWN \<Rightarrow> Inr ((log_msg CRITICAL ''unknown opcode'' d)\<lparr>pc := pc d + 1\<rparr>, 1)
          | OTHER m \<Rightarrow> other m opcode d))"


section \<open>The CPU step callback (Device::stepCPU)\<close>

text \<open>
  What a step did, for stating properties of runs: whether it acknowledged an
  interrupt, and the cycle counts returned by the instructions it executed, in order.
  The source returns the constant 1 (one CPU tick until the next step).
\<close>

record step_report =
  dispatched :: bool
  executed :: "nat list"

text \<open>
  The loop \<open>while(instruction_cycles_ == 0)\<close>. It does not return when every
  instruction returns 0 cycles; the result is \<open>None\<close> then.
\<close>

partial_function (option) exec_while ::
  "(Device \<Rightarrow> fault + Device \<times> nat) \<Rightarrow> Device \<Rightarrow> nat list
     \<Rightarrow> (fault + Device \<times> nat list) option" where
  "exec_while exec d cs =
     (if instruction_cycles d = 0 then
        (case exec d of
           Inl e \<Rightarrow> Some (Inl e)
         | Inr (d1, c) \<Rightarrow>
             exec_while exec (d1\<lparr>instruction_cycles := c, interrupt_wait_instruction := False\<rparr>)
               (cs @ [c]))
      else Some (Inr (d, cs)))"

text \<open>
  \<open>Device::stepCPU()\<close>, with \<open>executeNextInstruction\<close> as the argument \<open>exec\<close>.
\<close>

definition stepCPU ::
  "stack_decls \<Rightarrow> (Device \<Rightarrow> fault + Device \<times> nat) \<Rightarrow> Device
     \<Rightarrow> (fault + Device \<times> step_report) option" where
  "stepCPU k exec d =
     (let d0 = d\<lparr>breaked := False\<rparr> in
      case (if instruction_cycles d0 = 0 \<and> \<not> interrupt_wait_instruction d0 \<and>
               bit (sreg d0) sreg_I \<and> ccpState d0 = 0
            then (case processPendingInterrupts k d0 of
                    Inl e \<Rightarrow> Inl e
                  | Inr (d1, took) \<Rightarrow>
                      Inr (if took
                           then d1\<lparr>instruction_cycles := 5, interrupt_wait_instruction := True\<rparr>
                           else d1, took))
            else Inr (d0, False)) of
        Inl e \<Rightarrow> Some (Inl e)
      | Inr (d2, took) \<Rightarrow>
         (case exec_while exec d2 [] of
            None \<Rightarrow> None
          | Some (Inl e) \<Rightarrow> Some (Inl e)
          | Some (Inr (d3, cs)) \<Rightarrow>
              Some (Inr (d3\<lparr>instruction_cycles := instruction_cycles d3 - 1\<rparr>,
                         \<lparr>dispatched = took, executed = cs\<rparr>))))"

text \<open>
  Runs of the CPU step callback. Between two steps other code runs (other scheduled
  callbacks, \<open>setIvLvl\<close>, I/O); it may change anything but \<open>instruction_cycles_\<close>
  and \<open>interrupt_wait_instruction_\<close>, which are private to the device and written
  only by \<open>stepCPU\<close> and \<open>reset\<close>. \<open>cpu_run k exec d0 rs d\<close>: from \<open>d0\<close> the
  steps reported in \<open>rs\<close> lead to \<open>d\<close>.
\<close>

inductive cpu_run ::
  "stack_decls \<Rightarrow> (Device \<Rightarrow> fault + Device \<times> nat) \<Rightarrow> Device \<Rightarrow> step_report list \<Rightarrow> Device \<Rightarrow> bool"
  for k exec d0 where
  run_start: "cpu_run k exec d0 [] d0"
| run_other: "cpu_run k exec d0 rs d \<Longrightarrow>
     instruction_cycles d' = instruction_cycles d \<Longrightarrow>
     interrupt_wait_instruction d' = interrupt_wait_instruction d \<Longrightarrow>
     cpu_run k exec d0 rs d'"
| run_step: "cpu_run k exec d0 rs d \<Longrightarrow> stepCPU k exec d = Some (Inr (d', r)) \<Longrightarrow>
     cpu_run k exec d0 (rs @ [r]) d'"

text \<open>
  The property of a run, as an automaton over the step reports. Its state is
  (\<open>retired\<close>, \<open>debt\<close>): whether an instruction has been executed since the most
  recent acknowledgement, and how many CPU cycles the instruction last started (or the
  interrupt entry) still takes. A step may acknowledge an interrupt only when
  \<open>retired\<close> holds and no cycle is owed, and executes no instruction then; a step
  executes instructions only when no cycle is owed.
\<close>

fun well_spaced :: "bool \<times> nat \<Rightarrow> step_report list \<Rightarrow> bool" where
  "well_spaced (retired, debt) [] = True"
| "well_spaced (retired, debt) (r # rs) =
     (if dispatched r then
        retired \<and> debt = 0 \<and> executed r = [] \<and> well_spaced (False, 4) rs
      else if executed r = [] then
        debt > 0 \<and> well_spaced (retired, debt - 1) rs
      else
        debt = 0 \<and> well_spaced (True, last (executed r) - 1) rs)"


section \<open>Clock scheduler (Device::schedule, step, onClockConfigChange)\<close>

datatype ClockType = SYS | CPU | PER | PER2 | PER4 | ASY

text \<open>
  \<open>ClockEvent\<close> as \<open>Device::schedule\<close> initialises it:
  \<open>ClockEvent{clock, cb, priority, tick, scale}\<close>. A callback is identified by a
  number; what it returns is given to \<open>step\<close> as a function.

  Modelled from the spec: the insertion order of an event. clock.h, which declares
  \<open>ClockEvent\<close> and \<open>clock_queue_cmp\<close>, is not part of the sources at hand, and
  the spec's comparator has the insertion order as its last key. The field
  \<open>inserted\<close> holds it: the number of \<open>schedule\<close> calls made before the one that
  created the event. Only \<open>clock_queue_cmp\<close> reads it.
\<close>

record ClockEvent =
  clock :: ClockType
  callback :: nat
  priority :: "32 word"
  tick :: "32 word"
  scale :: "32 word"
  inserted :: nat

text \<open>
  Modelled from the spec: \<open>clock_queue_cmp\<close> is not part of the sources at hand. The
  spec gives the comparator as: order by tick ascending, then by priority ascending, then
  stable by insertion order. The standard heap functions keep at the front an element
  that no other is greater than under the comparator, so the comparator holds when the
  first event is to fire after the second: on a later tick, or on the same tick with a
  higher priority value, or on the same tick with the same priority when it was inserted
  later.
\<close>

definition clock_queue_cmp :: "ClockEvent \<Rightarrow> ClockEvent \<Rightarrow> bool" where
  "clock_queue_cmp a b =
     (tick a > tick b \<or>
      (tick a = tick b \<and>
         (priority a > priority b \<or>
          (priority a = priority b \<and> inserted a > inserted b))))"

text \<open>
  \<open>std::push_heap\<close>, \<open>std::pop_heap\<close> and \<open>std::make_heap\<close> of the C++ standard
  library, as libstdc++ implements them (bits/stl_heap.h), on a list for the range
  \<open>[first, last)\<close>. \<open>push_heap_aux\<close> is \<open>__push_heap\<close>: it moves the hole up
  while the parent is less than the value.
\<close>

function push_heap_aux :: "('a \<Rightarrow> 'a \<Rightarrow> bool) \<Rightarrow> 'a list \<Rightarrow> nat \<Rightarrow> nat \<Rightarrow> 'a \<Rightarrow> 'a list" where
  "push_heap_aux cmp first holeIndex topIndex v =
     (if holeIndex > topIndex \<and> cmp (first ! ((holeIndex - 1) div 2)) v
      then push_heap_aux cmp (first[holeIndex := first ! ((holeIndex - 1) div 2)])
             ((holeIndex - 1) div 2) topIndex v
      else first[holeIndex := v])"
  by pat_completeness auto
termination
  by (relation "measure (\<lambda>(cmp, first, holeIndex, topIndex, v). holeIndex)") auto

text \<open>
  The first loop of \<open>__adjust_heap\<close>: the hole moves down to the greater child while
  it has two children. (\<open>secondChild\<close> equals \<open>holeIndex\<close> at the head of the loop.)
\<close>

function adjust_down :: "('a \<Rightarrow> 'a \<Rightarrow> bool) \<Rightarrow> 'a list \<Rightarrow> nat \<Rightarrow> nat \<Rightarrow> 'a list \<times> nat" where
  "adjust_down cmp first holeIndex len =
     (if holeIndex < (len - 1) div 2 then
        (let secondChild = 2 * (holeIndex + 1);
             secondChild' = (if cmp (first ! secondChild) (first ! (secondChild - 1))
                             then secondChild - 1 else secondChild)
         in adjust_down cmp (first[holeIndex := first ! secondChild']) secondChild' len)
      else (first, holeIndex))"
  by pat_completeness auto
termination
  by (relation "measure (\<lambda>(cmp, first, holeIndex, len). len - holeIndex)") (auto simp: Let_def)

text \<open>
  \<open>__adjust_heap\<close>: after the loop, a hole whose only child is the last element of an
  even-sized range takes that child; then the value is pushed up from the hole, not
  above \<open>topIndex\<close>. (In C++ \<open>(len - 2) / 2\<close> is \<open>-1\<close> or \<open>0\<close> for a length
  below 2; the test \<open>2 \<le> len\<close> keeps the natural-number reading right.)
\<close>

definition adjust_heap :: "('a \<Rightarrow> 'a \<Rightarrow> bool) \<Rightarrow> 'a list \<Rightarrow> nat \<Rightarrow> nat \<Rightarrow> 'a \<Rightarrow> 'a list" where
  "adjust_heap cmp first holeIndex len v =
     (let (first1, hole1) = adjust_down cmp first holeIndex len;
          (first2, hole2) =
            (if len mod 2 = 0 \<and> 2 \<le> len \<and> hole1 = (len - 2) div 2
             then (first1[hole1 := first1 ! (2 * (hole1 + 1) - 1)], 2 * (hole1 + 1) - 1)
             else (first1, hole1))
      in push_heap_aux cmp first2 hole2 holeIndex v)"

text \<open>\<open>std::push_heap(first, last, comp)\<close>; undefined on an empty range.\<close>

definition push_heap :: "('a \<Rightarrow> 'a \<Rightarrow> bool) \<Rightarrow> 'a list \<Rightarrow> 'a list" where
  "push_heap cmp xs =
     (if xs = [] then xs else push_heap_aux cmp xs (length xs - 1) 0 (last xs))"

text \<open>\<open>std::pop_heap(first, last, comp)\<close>: the first element goes to the end.\<close>

definition pop_heap :: "('a \<Rightarrow> 'a \<Rightarrow> bool) \<Rightarrow> 'a list \<Rightarrow> 'a list" where
  "pop_heap cmp xs =
     (if length xs > 1
      then (let n = length xs - 1; v = xs ! n
            in adjust_heap cmp (xs[n := xs ! 0]) 0 n v)
      else xs)"

text \<open>\<open>std::make_heap(first, last, comp)\<close>.\<close>

fun make_heap_from :: "('a \<Rightarrow> 'a \<Rightarrow> bool) \<Rightarrow> 'a list \<Rightarrow> nat \<Rightarrow> 'a list" where
  "make_heap_from cmp xs 0 = adjust_heap cmp xs 0 (length xs) (xs ! 0)"
| "make_heap_from cmp xs (Suc parent) =
     make_heap_from cmp (adjust_heap cmp xs (Suc parent) (length xs) (xs ! Suc parent)) parent"

definition make_heap :: "('a \<Rightarrow> 'a \<Rightarrow> bool) \<Rightarrow> 'a list \<Rightarrow> 'a list" where
  "make_heap cmp xs =
     (if length xs < 2 then xs else make_heap_from cmp xs ((length xs - 2) div 2))"

text \<open>
  The scheduler's part of the device: the SYS tick, the event queue and the CLK block
  whose prescalers \<open>getClockScale\<close> reads (\<open>clk_.prescaler_a_\<close>, \<open>prescaler_b_\<close>,
  \<open>prescaler_c_\<close> in device.cpp; \<open>prescalerA_div_\<close>, \<open>prescalerB_div_\<close>,
  \<open>prescalerC_div_\<close> in clk.cpp). \<open>n_scheduled\<close> counts the \<open>schedule\<close> calls
  made so far; it is not a member of \<open>Device\<close> and serves only to give each event
  its place in the insertion order.
\<close>

record Scheduler =
  clk_sys_tick :: "32 word"
  clk_sys_queue :: "ClockEvent list"
  clk :: CLK
  n_scheduled :: nat

datatype sched_fault = DivideByZero | AssertAligned | AssertQueueNotEmpty | FrontOfEmptyQueue

text \<open>\<open>Device::getClockScale(clock)\<close> (for ASY the source also logs a warning).\<close>

fun getClockScale :: "CLK \<Rightarrow> ClockType \<Rightarrow> 32 word" where
  "getClockScale c SYS = 1"
| "getClockScale c CPU = prescalerA_div c * prescalerB_div c * prescalerC_div c"
| "getClockScale c PER = prescalerA_div c * prescalerB_div c * prescalerC_div c"
| "getClockScale c PER2 = prescalerA_div c * prescalerB_div c"
| "getClockScale c PER4 = prescalerA_div c"
| "getClockScale c ASY = 1"

text \<open>
  \<open>Device::schedule(clock, cb, ticks, priority)\<close>. The event also takes its place in
  the insertion order, and the count of calls goes up by one.
\<close>

definition schedule ::
  "ClockType \<Rightarrow> nat \<Rightarrow> 32 word \<Rightarrow> 32 word \<Rightarrow> Scheduler \<Rightarrow> sched_fault + Scheduler" where
  "schedule ct cb ticks prio s =
     (let sc = getClockScale (clk s) ct in
      if sc = 0 then Inl DivideByZero
      else
        (let ev = \<lparr>clock = ct, callback = cb, priority = prio,
                   tick = (clk_sys_tick s div sc + ticks) * sc, scale = sc,
                   inserted = n_scheduled s\<rparr>
         in Inr (s\<lparr>clk_sys_queue := push_heap clock_queue_cmp (clk_sys_queue s @ [ev]),
                   n_scheduled := n_scheduled s + 1\<rparr>)))"



text \<open>
  The body of the loop of \<open>Device::onClockConfigChange()\<close> for one event, and the
  function. The remainder by a zero scale is a fault, as is a failed assertion.
\<close>

definition rescale :: "CLK \<Rightarrow> 32 word \<Rightarrow> ClockEvent \<Rightarrow> sched_fault + ClockEvent" where
  "rescale c now ev =
     (let new_scale = getClockScale c (clock ev) in
      if scale ev = new_scale then Inr ev
      else if scale ev = 0 then Inl DivideByZero
      else if (tick ev - now) mod scale ev \<noteq> 0 then Inl AssertAligned
      else
        (let dt = (tick ev - now + scale ev - 1) div scale ev
         in Inr (ev\<lparr>tick := now + dt * new_scale, scale := new_scale\<rparr>)))"

fun rescale_all :: "CLK \<Rightarrow> 32 word \<Rightarrow> ClockEvent list \<Rightarrow> sched_fault + ClockEvent list" where
  "rescale_all c now [] = Inr []"
| "rescale_all c now (ev # evs) =
     (case rescale c now ev of
        Inl e \<Rightarrow> Inl e
      | Inr ev' \<Rightarrow> (case rescale_all c now evs of Inl e \<Rightarrow> Inl e | Inr evs' \<Rightarrow> Inr (ev' # evs')))"

definition onClockConfigChange :: "Scheduler \<Rightarrow> sched_fault + Scheduler" where
  "onClockConfigChange s =
     (case rescale_all (clk s) (clk_sys_tick s) (clk_sys_queue s) of
        Inl e \<Rightarrow> Inl e
      | Inr q \<Rightarrow> Inr (s\<lparr>clk_sys_queue := make_heap clock_queue_cmp q\<rparr>))"




section \<open>Scheduler invariants and remaining domain ticks\<close>





text \<open>
  The order in which events of one step fire: by priority, then by insertion. The
  invariant of the loop of \<open>Device::step()\<close>: the queue is a heap, the events fired
  so far were due and are in that order, and some event \<open>k\<close> separates them from the
  events still due; a due event that is to fire strictly after \<open>k\<close> is at the current
  tick.
\<close>

definition fires_before :: "ClockEvent \<Rightarrow> ClockEvent \<Rightarrow> bool" where
  "fires_before a b =
     (priority a < priority b \<or> (priority a = priority b \<and> inserted a \<le> inserted b))"


text \<open>
  The number of ticks of its clock domain that an event is away from firing: the SYS
  ticks left, divided by the scale of the event and rounded up, as natural numbers.
\<close>

definition domain_ticks_left :: "32 word \<Rightarrow> ClockEvent \<Rightarrow> nat" where
  "domain_ticks_left now ev =
     (unat (tick ev - now) + unat (scale ev) - 1) div unat (scale ev)"

text \<open>
  The event that the spec describes for \<open>onClockConfigChange\<close>:
  \<open>tick = current_sys_tick + dt * new_scale\<close> and \<open>scale = new_scale\<close>, with
  \<open>dt\<close> the rounded-up quotient above. It is compared with \<open>rescale\<close>, which
  follows the source.
\<close>

definition spec_rescaled :: "CLK \<Rightarrow> 32 word \<Rightarrow> ClockEvent \<Rightarrow> ClockEvent" where
  "spec_rescaled c now ev =
     ev\<lparr>tick := now + word_of_nat (domain_ticks_left now ev) * getClockScale c (clock ev),
        scale := getClockScale c (clock ev)\<rparr>"

text \<open>
  Scales are powers of two: every divisor that \<open>CLK::setIo\<close> and \<open>CLK::reset\<close>
  store is one (\<open>clk_valid\<close>). An event can be rescaled when its scale is a power of
  two, it is aligned on a tick of its clock, the new scale is not zero and the new
  distance fits in 32 bits.
\<close>

definition pow2_scale :: "32 word \<Rightarrow> bool" where
  "pow2_scale w = (w \<in> (\<lambda>n. 2 ^ n) ` {0..<32})"

definition clk_valid :: "CLK \<Rightarrow> bool" where
  "clk_valid c =
     (prescalerA_div c \<in> (\<lambda>n. 2 ^ n) ` {0..<10} \<and>
      prescalerB_div c \<in> (\<lambda>n. 2 ^ n) ` {0..<5} \<and>
      prescalerC_div c \<in> (\<lambda>n. 2 ^ n) ` {0..<2})"

definition rescalable :: "CLK \<Rightarrow> 32 word \<Rightarrow> ClockEvent \<Rightarrow> bool" where
  "rescalable c now ev =
     (pow2_scale (scale ev) \<and> (tick ev - now) mod scale ev = 0 \<and>
      getClockScale c (clock ev) \<noteq> 0 \<and>
      domain_ticks_left now ev * unat (getClockScale c (clock ev)) < 2 ^ 32)"


section \<open>Sample states\<close>

text \<open>
  Sample declarations of \<open>stack_get\<close> and \<open>stack_set\<close> (low byte at the address
  pointed to, higher bytes below), a sample block and a sample device with 32 KiB of
  flash, 8 bytes of SRAM and the I flag set.
\<close>

definition stack0 :: stack_decls where
  "stack0 = \<lparr>
     stack_get16 = (\<lambda>p m. ucast (m ! p) OR push_bit 8 (ucast (m ! (p - 1)))),
     stack_get24 = (\<lambda>p m. ucast (m ! p) OR push_bit 8 (ucast (m ! (p - 1)))
                           OR push_bit 16 (ucast (m ! (p - 2)))),
     stack_set16 = (\<lambda>p v m. m[p := ucast v, p - 1 := ucast (drop_bit 8 v)]),
     stack_set24 = (\<lambda>p v m. m[p := ucast v, p - 1 := ucast (drop_bit 8 v),
                                p - 2 := ucast (drop_bit 16 v)])\<rparr>"

definition blk0 :: Block where
  "blk0 = \<lparr>name = ''TCC0'', iv_base = 2, io_addr = 0x0800, getIo = (\<lambda>a. 0)\<rparr>"

definition dev0 :: Device where
  "dev0 = \<lparr>flash_size = 0x8000, flash_boot_start = 0x7000,
     flash_data = [0, 0, 0, 0, 0, 0, 0, 0],
     regfile = (\<lambda>r. 0), sram_data = [0, 0, 0, 0, 0, 0, 0, 0],
     sreg = 0x80, sp = 0x2007, pc = 0,
     ccp_ioreg_cycles = 0, ccp_spm_cycles = 0,
     pmic_status = 0, lolvlen = True, medlvlen = True, hilvlen = True, ivsel = False,
     pending = iv_pending_init,
     iv_blocks = (\<lambda>iv. if 2 \<le> iv \<and> iv < 8 then Some blk0 else None),
     io_blocks = (\<lambda>a. None),
     instruction_cycles = 0, interrupt_wait_instruction = False, breaked = False,
     messages = [], iv_executed = []\<rparr>"

text \<open>A sample body for the branches that are not embedded: one word, one cycle.\<close>

definition no_other :: "string \<Rightarrow> 16 word \<Rightarrow> Device \<Rightarrow> fault + Device \<times> nat" where
  "no_other m opcode d = Inr (d\<lparr>pc := pc d + 1\<rparr>, 1)"

text \<open>
  Devices derived from the sample: an NMI pending while an NMI is served; HI and LO
  vectors pending; a RETI with the HI and LO status bits set; PUSH r17, POP r18; a
  skip over a one-word instruction; the FMULSU encoding; a HI vector pending right
  after reset.
\<close>

definition dev_nmi :: Device where
  "dev_nmi = dev0\<lparr>pending := \<lparr>lo = {}, med = {}, hi = {}, nmi = {3}\<rparr>, pmic_status := 8\<rparr>"

definition dev_hi :: Device where
  "dev_hi = dev0\<lparr>pending := \<lparr>lo = {4}, med = {}, hi = {3, 5}, nmi = {}\<rparr>, pc := 0x10\<rparr>"

definition dev_reti :: Device where
  "dev_reti = dev0\<lparr>flash_data := [0x9518], pmic_status := 5, sp := 0x2005,
     sram_data := [0, 0, 0, 0, 0, 0, 0x01, 0x23]\<rparr>"

definition dev_stack :: Device where
  "dev_stack = dev0\<lparr>flash_data := [0x931F, 0x912F], regfile := (\<lambda>r. if r = 17 then 0xAB else 0)\<rparr>"

definition dev_sbrc :: Device where
  "dev_sbrc = dev0\<lparr>flash_data := [0xFC00, 0x0000, 0x0000]\<rparr>"

definition dev_cpse :: Device where
  "dev_cpse = dev0\<lparr>flash_data := [0x1000, 0x0000, 0x0000]\<rparr>"

definition dev_fmulsu :: Device where
  "dev_fmulsu = dev0\<lparr>flash_data := [0x0389],
     regfile := (\<lambda>r. if r = 16 then 0xFF else if r = 17 then 0x02 else 0)\<rparr>"

definition dev_wait :: Device where
  "dev_wait = dev0\<lparr>pending := \<lparr>lo = {}, med = {}, hi = {3}, nmi = {}\<rparr>,
     interrupt_wait_instruction := True\<rparr>"

text \<open>Sample declarations and a sample block state, for concrete evaluation.\<close>

definition clk_decls0 :: CLK_decls where
  "clk_decls0 = \<lparr>IO_SIZE = 8, SCLKSEL_RC2M = 0, SCLKSEL_PLL = 4, RTCSRC_ULP = 0,
     RTCSRC_RCOSC = 2, RTCSRC_TOSC32 = 5,
     psadiv_of = (\<lambda>v. unat (drop_bit 2 v AND 0x1F)), psbcdiv_of = (\<lambda>v. unat (v AND 3))\<rparr>"

definition clk0 :: CLK where
  "clk0 = \<lparr>sclk = 0, psctrl = 0, prescalerA_div = 1, prescalerB_div = 1, prescalerC_div = 1,
     locked = False, rtcsrc = 0, rtcen = False, clk_messages = []\<rparr>"

text \<open>
  Sample schedulers: the empty queue at tick 0 under the reset clock configuration; SYS
  events due at tick 1, the \<open>n\<close>-th inserted with callback \<open>n\<close>; a callback that
  re-arms its event one tick later, as the CPU step does; the queue that \<open>schedule\<close>
  builds from four such events of which the second has a lower priority value; events of
  the CPU clock, one of them far ahead, and of the SYS clock; the CLK block after PSCTRL
  writes that set prescaler A to 2 and to 4.
\<close>

definition sch0 :: Scheduler where
  "sch0 = \<lparr>clk_sys_tick = 0, clk_sys_queue = [], clk = clk0, n_scheduled = 0\<rparr>"

definition ev_at :: "nat \<Rightarrow> 32 word \<Rightarrow> ClockEvent" where
  "ev_at n prio = \<lparr>clock = SYS, callback = n, priority = prio, tick = 1, scale = 1,
     inserted = n\<rparr>"



definition ev_far :: ClockEvent where
  "ev_far = \<lparr>clock = CPU, callback = 0, priority = 100, tick = 0x80000000, scale = 1,
     inserted = 0\<rparr>"

definition ev_cpu :: ClockEvent where
  "ev_cpu = \<lparr>clock = CPU, callback = 0, priority = 100, tick = 4, scale = 1, inserted = 0\<rparr>"

definition ev_sys :: ClockEvent where
  "ev_sys = \<lparr>clock = SYS, callback = 1, priority = 50, tick = 9, scale = 1, inserted = 1\<rparr>"

definition clk_div2 :: CLK where
  "clk_div2 = clk0\<lparr>psctrl := 4, prescalerA_div := 2\<rparr>"

definition clk_div4 :: CLK where
  "clk_div4 = clk0\<lparr>psctrl := 8, prescalerA_div := 4\<rparr>"


chapter \<open>Properties\<close>

section \<open>Pending queues: one queue per vector\<close>

lemma membership_le1:
  "(membership iv p \<le> 1) =
     (\<not> (iv \<in> lo p \<and> iv \<in> med p) \<and> \<not> (iv \<in> lo p \<and> iv \<in> hi p) \<and>
      \<not> (iv \<in> lo p \<and> iv \<in> nmi p) \<and> \<not> (iv \<in> med p \<and> iv \<in> hi p) \<and>
      \<not> (iv \<in> med p \<and> iv \<in> nmi p) \<and> \<not> (iv \<in> hi p \<and> iv \<in> nmi p))"
  by (simp add: membership_def)

lemma membership_eq0:
  "(membership iv p = 0) = (iv \<notin> lo p \<and> iv \<notin> med p \<and> iv \<notin> hi p \<and> iv \<notin> nmi p)"
  by (simp add: membership_def)

lemma setIvLvl_membership:
  "membership iv p \<le> 1 \<Longrightarrow> membership iv (setIvLvl j lvl p) \<le> 1"
  unfolding membership_le1
  by (cases lvl; simp add: setIvLvl_def Let_def; blast)

lemma setIvLvl_calls_membership:
  "membership iv p \<le> 1 \<Longrightarrow> membership iv (setIvLvl_calls cs p) \<le> 1"
proof (induction cs arbitrary: p)
  case Nil
  then show ?case by simp
next
  case (Cons c cs)
  obtain a b where c: "c = (a, b)" by (cases c)
  have "membership iv (setIvLvl a b p) \<le> 1"
    by (rule setIvLvl_membership [OF Cons.prems])
  then have "membership iv (setIvLvl_calls cs (setIvLvl a b p)) \<le> 1"
    by (rule Cons.IH)
  then show ?case by (simp add: c)
qed

lemma membership_init: "membership iv iv_pending_init = 0"
  by (simp add: membership_def iv_pending_init_def)

lemma setIvLvl_none:
  "membership iv p \<le> 1 \<Longrightarrow> membership iv (setIvLvl iv INTLVL_NONE p) = 0"
  unfolding membership_le1 membership_eq0
  by (simp add: setIvLvl_def; blast)

lemma setIvLvl_level_in:
  "lvl \<noteq> INTLVL_NONE \<Longrightarrow> iv \<in> queue_of lvl (setIvLvl iv lvl p)"
  by (cases lvl; simp add: setIvLvl_def Let_def)

lemma setIvLvl_level_one:
  "membership iv p \<le> 1 \<Longrightarrow> lvl \<noteq> INTLVL_NONE \<Longrightarrow> membership iv (setIvLvl iv lvl p) = 1"
  unfolding membership_le1
  by (cases lvl; simp add: setIvLvl_def Let_def membership_def)

lemma setIvLvl_other:
  "j \<noteq> iv \<Longrightarrow> (j \<in> queue_of l (setIvLvl iv lvl p)) = (j \<in> queue_of l p)"
  by (cases lvl; cases l; simp add: setIvLvl_def Let_def)

text \<open>
  Claim C5. After any sequence of \<open>setIvLvl\<close> calls on a fresh device, every vector
  \<open>iv\<close> is a member of at most one of the four pending queues;
  \<open>setIvLvl(iv, NONE)\<close> leaves \<open>iv\<close> in no queue; \<open>setIvLvl(iv, L)\<close> for a
  level \<open>L\<close> leaves \<open>iv\<close> in the queue of \<open>L\<close> and in no other queue; the
  membership of every other vector \<open>j\<close> is untouched.
\<close>

theorem setIvLvl_single_queue:
  assumes "p = setIvLvl_calls cs iv_pending_init"
  shows "membership iv p \<le> 1 \<and>
         membership iv (setIvLvl iv INTLVL_NONE p) = 0 \<and>
         (lvl \<noteq> INTLVL_NONE \<longrightarrow>
            iv \<in> queue_of lvl (setIvLvl iv lvl p) \<and> membership iv (setIvLvl iv lvl p) = 1) \<and>
         (j \<noteq> iv \<longrightarrow> (j \<in> queue_of l (setIvLvl iv lvl p)) = (j \<in> queue_of l p))"
proof -
  have "membership iv iv_pending_init \<le> 1" by (simp add: membership_init)
  then have m: "membership iv p \<le> 1"
    unfolding assms by (rule setIvLvl_calls_membership)
  show ?thesis
    using m setIvLvl_none [OF m] setIvLvl_level_in [of lvl iv p] setIvLvl_level_one [OF m, of lvl]
      setIvLvl_other [of j iv l lvl p]
    by blast
qed

theorem setIvLvl_single_queue_witness:
  "setIvLvl_calls [(3, INTLVL_LO), (5, INTLVL_HI), (3, INTLVL_MED)] iv_pending_init
     = \<lparr>lo = {}, med = {3}, hi = {5}, nmi = {}\<rparr> \<and>
   membership 3 \<lparr>lo = {}, med = {3}, hi = {5}, nmi = {}\<rparr> \<le> 1 \<and>
   membership 3 (setIvLvl 3 INTLVL_NONE \<lparr>lo = {}, med = {3}, hi = {5}, nmi = {}\<rparr>) = 0 \<and>
   INTLVL_HI \<noteq> INTLVL_NONE \<and>
   3 \<in> queue_of INTLVL_HI (setIvLvl 3 INTLVL_HI \<lparr>lo = {}, med = {3}, hi = {5}, nmi = {}\<rparr>) \<and>
   membership 3 (setIvLvl 3 INTLVL_HI \<lparr>lo = {}, med = {3}, hi = {5}, nmi = {}\<rparr>) = 1 \<and>
   (5::nat) \<noteq> 3 \<and>
   5 \<in> queue_of INTLVL_HI (setIvLvl 3 INTLVL_HI \<lparr>lo = {}, med = {3}, hi = {5}, nmi = {}\<rparr>)"
proof -
  have e: "\<lparr>lo = {}, med = {3}, hi = {5}, nmi = {}\<rparr> =
      setIvLvl_calls [(3, INTLVL_LO), (5, INTLVL_HI), (3, INTLVL_MED)] iv_pending_init"
    by (simp add: setIvLvl_def iv_pending_init_def Let_def)
  have q: "5 \<in> queue_of INTLVL_HI \<lparr>lo = {}, med = {3}, hi = {5::nat}, nmi = {}\<rparr>"
    by simp
  show ?thesis
    using setIvLvl_single_queue [OF e, of 3 INTLVL_HI 5 INTLVL_HI] e [symmetric] q
    by simp
qed


section \<open>The CLK lock\<close>

lemma CLK_setIo_locked:
  assumes "locked c" "addr < IO_SIZE k"
  shows "\<exists>c'. CLK_setIo k ccp addr v c = Inr c' \<and> locked c' \<and> sclk c' = sclk c \<and>
     psctrl c' = psctrl c \<and> prescalerA_div c' = prescalerA_div c \<and>
     prescalerB_div c' = prescalerB_div c \<and> prescalerC_div c' = prescalerC_div c"
  using assms by (simp add: CLK_setIo_def clk_log_def Let_def)

lemma CLK_setIo_lock_set:
  assumes "\<not> locked c" "CLK_setIo k ccp addr v c = Inr c'" "locked c'"
  shows "addr = 2 \<and> v \<noteq> 0 \<and> ccp AND CCP_IOREG \<noteq> 0"
  using assms by (auto simp: CLK_setIo_def clk_log_def Let_def split: if_splits)

lemma CLK_writes_locked:
  assumes "locked c" "\<forall>w \<in> set ws. fst (snd w) < IO_SIZE k"
  shows "\<exists>c'. CLK_writes k ws c = Inr c' \<and> locked c' \<and> sclk c' = sclk c \<and>
     psctrl c' = psctrl c \<and> prescalerA_div c' = prescalerA_div c \<and>
     prescalerB_div c' = prescalerB_div c \<and> prescalerC_div c' = prescalerC_div c"
  using assms
proof (induction ws arbitrary: c)
  case Nil
  then show ?case by simp
next
  case (Cons w ws)
  obtain ccp addr v where w: "w = (ccp, addr, v)" by (cases w)
  from Cons.prems have a: "addr < IO_SIZE k" by (simp add: w)
  from CLK_setIo_locked [OF Cons.prems(1) a, of ccp v]
  obtain c1 where c1: "CLK_setIo k ccp addr v c = Inr c1" "locked c1" "sclk c1 = sclk c"
     "psctrl c1 = psctrl c" "prescalerA_div c1 = prescalerA_div c"
     "prescalerB_div c1 = prescalerB_div c" "prescalerC_div c1 = prescalerC_div c"
    by blast
  from Cons.prems have "\<forall>w \<in> set ws. fst (snd w) < IO_SIZE k" by simp
  from Cons.IH [OF c1(2) this] c1 show ?case by (simp add: w)
qed

text \<open>
  Claim C10. Once \<open>locked\<close> is set, every sequence of I/O writes to the block (to
  CTRL, PSCTRL, LOCK or any other of its addresses, with any value and any CCP state)
  returns with \<open>locked\<close> still set and with \<open>sclk\<close>, \<open>psctrl\<close> and the three
  prescaler divisors unchanged; a write that sets the flag is a write of a non-zero
  value to LOCK (offset 2) while \<open>ccpState() & CCP_IOREG\<close> is non-zero; \<open>reset\<close>
  clears the flag.
\<close>

theorem CLK_lock_protects:
  "(locked c \<and> (\<forall>w \<in> set ws. fst (snd w) < IO_SIZE k) \<longrightarrow>
      (\<exists>c'. CLK_writes k ws c = Inr c' \<and> locked c' \<and> sclk c' = sclk c \<and>
         psctrl c' = psctrl c \<and> prescalerA_div c' = prescalerA_div c \<and>
         prescalerB_div c' = prescalerB_div c \<and> prescalerC_div c' = prescalerC_div c)) \<and>
   (\<not> locked u \<and> CLK_setIo k ccp addr v u = Inr u1 \<and> locked u1 \<longrightarrow>
      addr = 2 \<and> v \<noteq> 0 \<and> ccp AND CCP_IOREG \<noteq> 0) \<and>
   \<not> locked (CLK_reset k c)"
  using CLK_writes_locked [of c ws k] CLK_setIo_lock_set [of u k ccp addr v u1]
  by (simp add: CLK_reset_def)

theorem CLK_lock_protects_witness:
  "locked (clk0\<lparr>locked := True\<rparr>) \<and>
   0 < IO_SIZE clk_decls0 \<and> 1 < IO_SIZE clk_decls0 \<and> 2 < IO_SIZE clk_decls0 \<and>
   (\<exists>c'. CLK_writes clk_decls0 [(0, 0, 1), (0, 1, 4), (1, 2, 0)] (clk0\<lparr>locked := True\<rparr>) = Inr c' \<and>
      locked c' \<and> sclk c' = 0 \<and> psctrl c' = 0 \<and> prescalerA_div c' = 1 \<and>
      prescalerB_div c' = 1 \<and> prescalerC_div c' = 1) \<and>
   \<not> locked clk0 \<and>
   CLK_setIo clk_decls0 1 2 1 clk0 =
     Inr (clk0\<lparr>locked := True, clk_messages := [(NOTICE, ''locked CLK.CTRL and CLK.PSCTRL'')]\<rparr>) \<and>
   locked (clk0\<lparr>locked := True, clk_messages := [(NOTICE, ''locked CLK.CTRL and CLK.PSCTRL'')]\<rparr>) \<and>
   (1 :: 8 word) AND CCP_IOREG \<noteq> 0 \<and>
   \<not> locked (CLK_reset clk_decls0 (clk0\<lparr>locked := True\<rparr>))"
proof -
  have s: "CLK_setIo clk_decls0 1 2 1 clk0 =
     Inr (clk0\<lparr>locked := True, clk_messages := [(NOTICE, ''locked CLK.CTRL and CLK.PSCTRL'')]\<rparr>)"
    by (simp add: CLK_setIo_def clk_decls0_def clk0_def clk_log_def CCP_IOREG_def)
  have h: "locked (clk0\<lparr>locked := True\<rparr>)"
    "\<forall>w \<in> set [(0 :: 8 word, 0 :: nat, 1 :: 8 word), (0, 1, 4), (1, 2, 0)]. fst (snd w) < IO_SIZE clk_decls0"
    "\<not> locked clk0"
    by (simp_all add: clk_decls0_def clk0_def)
  show ?thesis
    using CLK_lock_protects [of "clk0\<lparr>locked := True\<rparr>" "[(0, 0, 1), (0, 1, 4), (1, 2, 0)]"
        clk_decls0 clk0 1 2 1
        "clk0\<lparr>locked := True, clk_messages := [(NOTICE, ''locked CLK.CTRL and CLK.PSCTRL'')]\<rparr>"]
      s h
    by (simp add: clk0_def CCP_IOREG_def)
qed

section \<open>Interrupt arbitration and dispatch\<close>

lemmas sample_defs = dev0_def stack0_def blk0_def no_other_def iv_pending_init_def

lemma processPendingInterrupts_arbitration:
  "processPendingInterrupts k d =
     (if arbitration d = INTLVL_NONE then Inr (d, False) else acknowledge k (arbitration d) d)"
  by (cases "currentIntLvl d") (simp_all add: processPendingInterrupts_def arbitration_def Let_def)

lemma exec_while_debt:
  "instruction_cycles d \<noteq> 0 \<Longrightarrow> exec_while exec d cs = Some (Inr (d, cs))"
  by (subst exec_while.simps) simp

lemma exec_while_once:
  "instruction_cycles d = 0 \<Longrightarrow> exec d = Inr (d1, c) \<Longrightarrow> c \<noteq> 0 \<Longrightarrow>
   exec_while exec d cs =
     Some (Inr (d1\<lparr>instruction_cycles := c, interrupt_wait_instruction := False\<rparr>, cs @ [c]))"
  by (subst exec_while.simps) (simp add: exec_while_debt)

lemma exec_while_fault:
  "instruction_cycles d = 0 \<Longrightarrow> exec d = Inl e \<Longrightarrow> exec_while exec d cs = Some (Inl e)"
  by (subst exec_while.simps) simp

lemma acknowledge_effect:
  assumes lvl: "lvl \<noteq> INTLVL_NONE"
    and iv: "iv = Min (queue_of lvl (pending d))"
    and range: "iv < IV_MAX_COUNT"
    and blk: "iv_blocks d iv = Some b"
    and st: "stack d = Some p"
  shows "acknowledge k lvl d =
     Inr (d\<lparr>pending := set_queue lvl (queue_of lvl (pending d) - {iv}) (pending d),
            pmic_status := pmic_status d OR push_bit (lvl_num lvl - 1) 1,
            iv_executed := iv_executed d @ [(name b, iv - iv_base b)],
            sram_data := (if flash_size d \<le> 0x20000 then stack_set16 k p (pc d) (sram_data d)
                          else stack_set24 k p (pc d) (sram_data d)),
            sp := sp d - (if flash_size d \<le> 0x20000 then 2 else 3),
            pc := 2 * word_of_nat iv + (if ivsel d then flash_boot_start d else 0)\<rparr>, True)"
  using assms by (auto simp: acknowledge_def Let_def stack_def split: if_splits)

text \<open>
  Claim C1, amended. In a state in which the CPU step runs with no cycle debt,
  \<open>interrupt_wait_instruction\<close> false, \<open>sreg.I\<close> set and CCP inactive, let the
  arbitration (NMI if an NMI vector is pending and the current level is below NMI, else
  HI, MED, LO under their enable bit, a non-empty queue and a lower current level) give a
  level. Then the step takes the smallest vector \<open>iv\<close> of that level's queue,
  removes it from the queue, sets the status bit of the level, calls the owning block's
  \<open>executeIv(iv - iv_base)\<close>, pushes the PC (2 bytes when the flash is at most
  128 KiB, else 3) and lowers SP by as much, sets the PC to \<open>2*iv\<close> (plus
  \<open>flash_boot_start\<close> under \<open>ivsel\<close>), executes no instruction and leaves 4 of the
  5 charged cycles owed, the step itself being the first.
\<close>

theorem interrupt_dispatch:
  assumes guard: "instruction_cycles d = 0" "\<not> interrupt_wait_instruction d"
      "bit (sreg d) sreg_I" "ccpState d = 0"
    and fin: "finite (queue_of (arbitration d) (pending d))"
    and lvl: "arbitration d \<noteq> INTLVL_NONE"
    and iv: "iv = Min (queue_of (arbitration d) (pending d))"
    and range: "iv < IV_MAX_COUNT"
    and blk: "iv_blocks d iv = Some b"
    and st: "stack d = Some p"
  shows "iv \<in> queue_of (arbitration d) (pending d) \<and>
     (\<forall>j \<in> queue_of (arbitration d) (pending d). iv \<le> j) \<and>
     stepCPU k exec d =
       Some (Inr (d\<lparr>breaked := False,
            pending := set_queue (arbitration d) (queue_of (arbitration d) (pending d) - {iv}) (pending d),
            pmic_status := pmic_status d OR push_bit (lvl_num (arbitration d) - 1) 1,
            iv_executed := iv_executed d @ [(name b, iv - iv_base b)],
            sram_data := (if flash_size d \<le> 0x20000 then stack_set16 k p (pc d) (sram_data d)
                          else stack_set24 k p (pc d) (sram_data d)),
            sp := sp d - (if flash_size d \<le> 0x20000 then 2 else 3),
            pc := 2 * word_of_nat iv + (if ivsel d then flash_boot_start d else 0),
            instruction_cycles := 4, interrupt_wait_instruction := True\<rparr>,
          \<lparr>dispatched = True, executed = []\<rparr>))"
proof -
  let ?d0 = "d\<lparr>breaked := False\<rparr>"
  have "currentIntLvl ?d0 = currentIntLvl d"
    by (simp add: currentIntLvl_def)
  then have a0: "arbitration ?d0 = arbitration d"
    by (simp add: arbitration_def Let_def cong: if_cong)
  have ne: "queue_of (arbitration d) (pending d) \<noteq> {}"
    using lvl by (auto simp: arbitration_def Let_def split: if_splits)
  have m: "iv \<in> queue_of (arbitration d) (pending d)"
    "\<forall>j \<in> queue_of (arbitration d) (pending d). iv \<le> j"
    using fin ne by (simp_all add: iv)
  have "stack ?d0 = stack d" by (simp add: stack_def)
  with st have st0: "stack ?d0 = Some p" by simp
  have ack: "processPendingInterrupts k ?d0 = acknowledge k (arbitration d) ?d0"
    using lvl by (simp add: processPendingInterrupts_arbitration a0)
  have g0: "ccpState ?d0 = 0" using guard by (simp add: ccpState_def)
  have iv0: "iv = Min (queue_of (arbitration d) (pending ?d0))" by (simp add: iv)
  have blk0: "iv_blocks ?d0 iv = Some b" by (simp add: blk)
  note ae = acknowledge_effect [OF lvl iv0 range blk0 st0, of k]
  show ?thesis
    using m guard g0 by (simp add: stepCPU_def Let_def ack ae exec_while_debt)
qed

theorem interrupt_dispatch_witness:
  "instruction_cycles dev_hi = 0 \<and> \<not> interrupt_wait_instruction dev_hi \<and>
   bit (sreg dev_hi) sreg_I \<and> ccpState dev_hi = 0 \<and>
   arbitration dev_hi = INTLVL_HI \<and> Min (queue_of INTLVL_HI (pending dev_hi)) = 3 \<and>
   iv_blocks dev_hi 3 = Some blk0 \<and> stack dev_hi = Some 7 \<and>
   stepCPU stack0 (executeNextInstruction stack0 no_other) dev_hi =
     Some (Inr (dev_hi\<lparr>pending := \<lparr>lo = {4}, med = {}, hi = {5}, nmi = {}\<rparr>,
                  pmic_status := 4, iv_executed := [(''TCC0'', 1)],
                  sram_data := [0, 0, 0, 0, 0, 0, 0, 0x10], sp := 0x2005, pc := 6,
                  instruction_cycles := 4, interrupt_wait_instruction := True\<rparr>,
                \<lparr>dispatched = True, executed = []\<rparr>))"
proof -
  have c: "currentIntLvl dev_hi = INTLVL_NONE"
    by (simp add: currentIntLvl_def dev_hi_def sample_defs)
  have a: "arbitration dev_hi = INTLVL_HI"
    by (simp add: arbitration_def c) (simp add: dev_hi_def sample_defs)
  have g: "instruction_cycles dev_hi = 0" "\<not> interrupt_wait_instruction dev_hi"
    "bit (sreg dev_hi) sreg_I" "ccpState dev_hi = 0"
    by (simp_all add: dev_hi_def sample_defs sreg_I_def ccpState_def)
  have q: "queue_of INTLVL_HI (pending dev_hi) = {3, 5}"
    by (simp add: dev_hi_def sample_defs)
  have h: "finite (queue_of (arbitration dev_hi) (pending dev_hi))"
    "arbitration dev_hi \<noteq> INTLVL_NONE"
    "3 = Min (queue_of (arbitration dev_hi) (pending dev_hi))"
    "3 < IV_MAX_COUNT" "iv_blocks dev_hi 3 = Some blk0" "stack dev_hi = Some 7"
    by (simp_all add: a q IV_MAX_COUNT_def) (simp_all add: dev_hi_def sample_defs stack_def MEM_SRAM_START_def)
  show ?thesis
    using interrupt_dispatch [OF g h, of stack0 "executeNextInstruction stack0 no_other"] g h a q
    by (simp add: ) (simp add: dev_hi_def sample_defs)
qed

text \<open>
  Claim C1 as stated fails: with an NMI vector pending while an NMI is being served
  (\<open>nmiex\<close> set), the claimed arbitration selects NMI, but the step acknowledges
  nothing and executes the next instruction.
\<close>

theorem nmi_during_nmi_not_dispatched:
  "instruction_cycles dev_nmi = 0 \<and> \<not> interrupt_wait_instruction dev_nmi \<and>
   bit (sreg dev_nmi) sreg_I \<and> ccpState dev_nmi = 0 \<and>
   nmi (pending dev_nmi) = {3} \<and>
   arbitration_claimed dev_nmi = INTLVL_NMI \<and>
   stepCPU stack0 (executeNextInstruction stack0 no_other) dev_nmi =
     Some (Inr (dev_nmi\<lparr>pc := 1, interrupt_wait_instruction := False\<rparr>,
                \<lparr>dispatched = False, executed = [1]\<rparr>))"
proof -
  have c: "currentIntLvl dev_nmi = INTLVL_NMI"
    by (simp add: currentIntLvl_def dev_nmi_def sample_defs)
  have p: "processPendingInterrupts stack0 dev_nmi = Inr (dev_nmi, False)"
    by (simp add: processPendingInterrupts_def c)
  have e: "executeNextInstruction stack0 no_other dev_nmi = Inr (dev_nmi\<lparr>pc := 1\<rparr>, 1)"
    by (simp add: executeNextInstruction_def flash_at_def decode_def dev_nmi_def sample_defs)
  have b: "dev_nmi\<lparr>breaked := False\<rparr> = dev_nmi"
    by (simp add: dev_nmi_def sample_defs)
  have g: "instruction_cycles dev_nmi = 0" "\<not> interrupt_wait_instruction dev_nmi"
    "bit (sreg dev_nmi) sreg_I" "ccpState dev_nmi = 0" "nmi (pending dev_nmi) = {3}"
    by (simp_all add: dev_nmi_def sample_defs sreg_I_def ccpState_def)
  have w: "exec_while (executeNextInstruction stack0 no_other) dev_nmi [] =
     Some (Inr (dev_nmi\<lparr>pc := 1, instruction_cycles := 1, interrupt_wait_instruction := False\<rparr>, [1]))"
    using exec_while_once [of dev_nmi "executeNextInstruction stack0 no_other" "dev_nmi\<lparr>pc := 1\<rparr>" 1 "[]"]
      g(1) e by simp
  have a: "arbitration_claimed dev_nmi = INTLVL_NMI"
    by (simp add: arbitration_claimed_def g)
  show ?thesis
    using g a by (simp add: stepCPU_def b p w)
qed

section \<open>Interrupts wait for an instruction\<close>

lemma exec_while_result_aux:
  assumes "exec_while exec d cs = Some y"
  shows "\<forall>d3 cs'. y = Inr (d3, cs') \<longrightarrow>
         (instruction_cycles d \<noteq> 0 \<and> d3 = d \<and> cs' = cs) \<or>
         (instruction_cycles d = 0 \<and> (\<exists>ys. ys \<noteq> [] \<and> cs' = cs @ ys) \<and>
          instruction_cycles d3 = last cs' \<and> instruction_cycles d3 \<noteq> 0 \<and>
          \<not> interrupt_wait_instruction d3)"
  using assms
proof (induction rule: exec_while.raw_induct [rotated 1, consumes 1])
  case (1 exec_while' exec d cs y)
  show ?case
  proof (intro allI impI)
    fix d3 cs'
    assume y: "y = Inr (d3, cs')"
    show "(instruction_cycles d \<noteq> 0 \<and> d3 = d \<and> cs' = cs) \<or>
         (instruction_cycles d = 0 \<and> (\<exists>ys. ys \<noteq> [] \<and> cs' = cs @ ys) \<and>
          instruction_cycles d3 = last cs' \<and> instruction_cycles d3 \<noteq> 0 \<and>
          \<not> interrupt_wait_instruction d3)"
    proof (cases "instruction_cycles d = 0")
      case False
      with 1(2) y show ?thesis by simp
    next
      case True
      with 1(2) y obtain d1 c where e: "exec d = Inr (d1, c)"
        and w: "exec_while' exec (d1\<lparr>instruction_cycles := c, interrupt_wait_instruction := False\<rparr>)
                  (cs @ [c]) = Some (Inr (d3, cs'))"
        by (auto split: sum.splits)
      from 1(1) [OF w] have
        "(c \<noteq> 0 \<and> d3 = d1\<lparr>instruction_cycles := c, interrupt_wait_instruction := False\<rparr> \<and>
            cs' = cs @ [c]) \<or>
         (c = 0 \<and> (\<exists>ys. ys \<noteq> [] \<and> cs' = (cs @ [c]) @ ys) \<and>
          instruction_cycles d3 = last cs' \<and> instruction_cycles d3 \<noteq> 0 \<and>
          \<not> interrupt_wait_instruction d3)"
        by simp
      then show ?thesis
      proof
        assume "c \<noteq> 0 \<and> d3 = d1\<lparr>instruction_cycles := c, interrupt_wait_instruction := False\<rparr> \<and>
            cs' = cs @ [c]"
        with True show ?thesis by simp
      next
        assume a: "c = 0 \<and> (\<exists>ys. ys \<noteq> [] \<and> cs' = (cs @ [c]) @ ys) \<and>
          instruction_cycles d3 = last cs' \<and> instruction_cycles d3 \<noteq> 0 \<and>
          \<not> interrupt_wait_instruction d3"
        then obtain ys where "cs' = cs @ (c # ys)" by auto
        with a True show ?thesis by blast
      qed
    qed
  qed
qed

lemma exec_while_result:
  assumes "exec_while exec d cs = Some (Inr (d3, cs'))"
  shows "(instruction_cycles d \<noteq> 0 \<and> d3 = d \<and> cs' = cs) \<or>
         (instruction_cycles d = 0 \<and> (\<exists>ys. ys \<noteq> [] \<and> cs' = cs @ ys) \<and>
          instruction_cycles d3 = last cs' \<and> instruction_cycles d3 \<noteq> 0 \<and>
          \<not> interrupt_wait_instruction d3)"
  using exec_while_result_aux [OF assms] by blast

lemma acknowledge_private:
  "acknowledge k lvl d = Inr (d', b) \<Longrightarrow>
     instruction_cycles d' = instruction_cycles d \<and>
     interrupt_wait_instruction d' = interrupt_wait_instruction d"
  by (auto simp: acknowledge_def Let_def split: if_splits option.splits)

lemma processPendingInterrupts_private:
  "processPendingInterrupts k d = Inr (d', b) \<Longrightarrow>
     instruction_cycles d' = instruction_cycles d \<and>
     interrupt_wait_instruction d' = interrupt_wait_instruction d"
  by (auto simp: processPendingInterrupts_def Let_def dest: acknowledge_private split: if_splits)

lemma stepCPU_well_spaced:
  assumes s: "stepCPU k exec d = Some (Inr (d', r))"
    and t: "well_spaced (\<not> interrupt_wait_instruction d', instruction_cycles d') rs"
  shows "well_spaced (\<not> interrupt_wait_instruction d, instruction_cycles d) (r # rs)"
proof -
  let ?d0 = "d\<lparr>breaked := False\<rparr>"
  let ?g = "instruction_cycles ?d0 = 0 \<and> \<not> interrupt_wait_instruction ?d0 \<and>
               bit (sreg ?d0) sreg_I \<and> ccpState ?d0 = 0"
  from s obtain d2 took d3 cs where
    pre: "(if ?g then (case processPendingInterrupts k ?d0 of
                    Inl e \<Rightarrow> Inl e
                  | Inr (d1, took) \<Rightarrow>
                      Inr (if took
                           then d1\<lparr>instruction_cycles := 5, interrupt_wait_instruction := True\<rparr>
                           else d1, took))
            else Inr (?d0, False)) = Inr (d2, took)"
    and w: "exec_while exec d2 [] = Some (Inr (d3, cs))"
    and d': "d' = d3\<lparr>instruction_cycles := instruction_cycles d3 - 1\<rparr>"
    and r: "r = \<lparr>dispatched = took, executed = cs\<rparr>"
    by (auto simp: stepCPU_def Let_def split: sum.splits option.splits prod.splits)
  show ?thesis
  proof (cases took)
    case True
    with pre obtain d1 where g: ?g and p: "processPendingInterrupts k ?d0 = Inr (d1, True)"
      and d2: "d2 = d1\<lparr>instruction_cycles := 5, interrupt_wait_instruction := True\<rparr>"
      by (auto split: if_splits sum.splits prod.splits)
    from w d2 have "d3 = d2" "cs = []"
      using exec_while_result [OF w] by auto
    with g d2 d' r t True show ?thesis by simp
  next
    case False
    with pre have d2: "instruction_cycles d2 = instruction_cycles d"
      "interrupt_wait_instruction d2 = interrupt_wait_instruction d"
      by (auto split: if_splits sum.splits prod.splits dest: processPendingInterrupts_private)
    from exec_while_result [OF w] show ?thesis
    proof
      assume a: "instruction_cycles d2 \<noteq> 0 \<and> d3 = d2 \<and> cs = []"
      with d2 d' r t False show ?thesis by simp
    next
      assume a: "instruction_cycles d2 = 0 \<and> (\<exists>ys. ys \<noteq> [] \<and> cs = [] @ ys) \<and>
          instruction_cycles d3 = last cs \<and> instruction_cycles d3 \<noteq> 0 \<and>
          \<not> interrupt_wait_instruction d3"
      with d2 d' r t False show ?thesis by auto
    qed
  qed
qed

lemma cpu_run_well_spaced:
  assumes "cpu_run k exec d0 rs d"
  shows "well_spaced (\<not> interrupt_wait_instruction d, instruction_cycles d) ts \<longrightarrow>
         well_spaced (\<not> interrupt_wait_instruction d0, instruction_cycles d0) (rs @ ts)"
  using assms
proof (induction arbitrary: ts rule: cpu_run.induct)
  case run_start
  show ?case by simp
next
  case (run_other rs d d')
  then show ?case by simp
next
  case (run_step rs d d' r)
  show ?case
  proof
    assume "well_spaced (\<not> interrupt_wait_instruction d', instruction_cycles d') ts"
    from stepCPU_well_spaced [OF run_step.hyps(2) this]
    have "well_spaced (\<not> interrupt_wait_instruction d, instruction_cycles d) (r # ts)" .
    with run_step.IH [of "r # ts"]
    show "well_spaced (\<not> interrupt_wait_instruction d0, instruction_cycles d0) ((rs @ [r]) @ ts)"
      by simp
  qed
qed

lemma stepCPU_returns:
  assumes "\<And>d d1. exec d \<noteq> Inr (d1, 0)"
  shows "stepCPU k exec d \<noteq> None"
proof -
  have w: "exec_while exec d2 [] \<noteq> None" for d2
  proof (cases "instruction_cycles d2 = 0")
    case False
    then show ?thesis by (simp add: exec_while_debt)
  next
    case True
    show ?thesis
    proof (cases "exec d2")
      case (Inl e)
      with True show ?thesis by (simp add: exec_while_fault)
    next
      case (Inr x)
      obtain d1 c where x: "x = (d1, c)" by (cases x)
      with Inr assms [of d2 d1] have "c \<noteq> 0" by auto
      with True Inr x show ?thesis by (simp add: exec_while_once)
    qed
  qed
  show ?thesis
    by (simp add: stepCPU_def Let_def w split: sum.split prod.split option.split)
qed

text \<open>
  Claim C7. In every run of the CPU step callback, a step acknowledges an interrupt only
  if an instruction has been executed since the most recent acknowledgement (and since
  the start of the run when it starts with \<open>interrupt_wait_instruction\<close> set, as
  after reset) and no cycle of the instruction last started is still owed; such a step
  executes no instruction; and a step executes an instruction only when no cycle is owed.
\<close>

theorem interrupts_wait_for_instruction:
  assumes "cpu_run k exec d0 rs d"
  shows "well_spaced (\<not> interrupt_wait_instruction d0, instruction_cycles d0) rs"
  using cpu_run_well_spaced [OF assms, of "[]"] by simp

theorem interrupts_wait_for_instruction_witness:
  "cpu_run stack0 (executeNextInstruction stack0 no_other) dev_wait
     [\<lparr>dispatched = False, executed = [1]\<rparr>, \<lparr>dispatched = True, executed = []\<rparr>]
     (dev_wait\<lparr>pending := \<lparr>lo = {}, med = {}, hi = {}, nmi = {}\<rparr>,
        pmic_status := 4, iv_executed := [(''TCC0'', 1)],
        sram_data := [0, 0, 0, 0, 0, 0, 0, 0x01], sp := 0x2005, pc := 6,
        instruction_cycles := 4, interrupt_wait_instruction := True\<rparr>) \<and>
   well_spaced (\<not> interrupt_wait_instruction dev_wait, instruction_cycles dev_wait)
     [\<lparr>dispatched = False, executed = [1]\<rparr>, \<lparr>dispatched = True, executed = []\<rparr>]"
proof -
  let ?exec = "executeNextInstruction stack0 no_other"
  let ?d1 = "dev_wait\<lparr>pc := 1, interrupt_wait_instruction := False\<rparr>"
  let ?d2 = "dev_wait\<lparr>pending := \<lparr>lo = {}, med = {}, hi = {}, nmi = {}\<rparr>,
        pmic_status := 4, iv_executed := [(''TCC0'', 1)],
        sram_data := [0, 0, 0, 0, 0, 0, 0, 0x01], sp := 0x2005, pc := 6,
        instruction_cycles := 4, interrupt_wait_instruction := True\<rparr>"
  have e: "?exec dev_wait = Inr (dev_wait\<lparr>pc := 1\<rparr>, 1)"
    by (simp add: executeNextInstruction_def flash_at_def decode_def dev_wait_def sample_defs)
  have w: "exec_while ?exec dev_wait [] =
     Some (Inr (dev_wait\<lparr>pc := 1, instruction_cycles := 1, interrupt_wait_instruction := False\<rparr>, [1]))"
    using exec_while_once [of dev_wait ?exec "dev_wait\<lparr>pc := 1\<rparr>" 1 "[]"] e
    by (simp add: dev_wait_def sample_defs)
  have s1: "stepCPU stack0 ?exec dev_wait = Some (Inr (?d1, \<lparr>dispatched = False, executed = [1]\<rparr>))"
    using w by (simp add: stepCPU_def dev_wait_def sample_defs)
  have c: "currentIntLvl ?d1 = INTLVL_NONE"
    by (simp add: currentIntLvl_def dev_wait_def sample_defs)
  have p: "processPendingInterrupts stack0 ?d1 =
     Inr (?d2\<lparr>instruction_cycles := 0, interrupt_wait_instruction := False\<rparr>, True)"
    by (simp add: processPendingInterrupts_def c)
       (simp add: dev_wait_def sample_defs acknowledge_def IV_MAX_COUNT_def stack_def
          MEM_SRAM_START_def Let_def)
  have b: "?d1\<lparr>breaked := False\<rparr> = ?d1"
    by (simp add: dev_wait_def sample_defs)
  have s2: "stepCPU stack0 ?exec ?d1 = Some (Inr (?d2, \<lparr>dispatched = True, executed = []\<rparr>))"
    unfolding stepCPU_def Let_def b
    by (simp add: p exec_while_debt) (simp add: dev_wait_def sample_defs sreg_I_def ccpState_def)
  have r: "cpu_run stack0 ?exec dev_wait
     ([] @ [\<lparr>dispatched = False, executed = [1]\<rparr>] @ [\<lparr>dispatched = True, executed = []\<rparr>]) ?d2"
    using run_step [OF run_step [OF run_start s1] s2] by simp
  show ?thesis
    using interrupts_wait_for_instruction [OF r] r by simp
qed


section \<open>RETI\<close>

lemma decode_RETI: "decode 0x9518 = RETI"
  by (simp add: decode_def)

lemma status_bit_test:
  fixes w :: "8 word"
  shows "(w AND 8 = 0) = (\<not> bit w 3)" "(w AND 4 = 0) = (\<not> bit w 2)"
    "(w AND 2 = 0) = (\<not> bit w (Suc 0))" "(w AND 1 = 0) = (\<not> bit w 0)"
  using and_exp_eq_0_iff_not_bit [of w 3] and_exp_eq_0_iff_not_bit [of w 2]
    and_exp_eq_0_iff_not_bit [of w 1] and_exp_eq_0_iff_not_bit [of w 0]
  by simp_all

lemma currentIntLvl_cases:
  "currentIntLvl d =
     (if bit (pmic_status d) nmiex then INTLVL_NMI
      else if bit (pmic_status d) hilvlex then INTLVL_HI
      else if bit (pmic_status d) medlvlex then INTLVL_MED
      else if bit (pmic_status d) lolvlex then INTLVL_LO
      else INTLVL_NONE)"
proof -
  have z: "pmic_status d = 0 \<Longrightarrow> \<not> bit (pmic_status d) n" for n by simp
  show ?thesis
    using z [of 3] z [of 2] z [of 1] z [of 0]
    by (simp add: currentIntLvl_def Let_def status_bit_test nmiex_def hilvlex_def medlvlex_def
        lolvlex_def)
qed

text \<open>
  Claim C6. RETI clears the status bit of the current interrupt level, which is the
  highest of NMI, HI, MED, LO whose bit is set, and no other bit; when none of the four
  is set it clears nothing and logs at critical severity; it adds 2 to SP, reads the PC
  with \<open>stack_get<16>\<close> and takes 2 cycles when the flash is at most 128 KiB, else
  3, \<open>stack_get<24>\<close> and 3 cycles; \<open>sreg\<close> (and so its I flag) is unchanged.
\<close>

theorem RETI_clears_highest:
  assumes "flash_at d (pc d) = Some 0x9518"
    and "stack (d\<lparr>sp := sp d + (if flash_size d \<le> 0x20000 then 2 else 3)\<rparr>) = Some p"
  shows "\<exists>d'. executeNextInstruction k other d =
            Inr (d', if flash_size d \<le> 0x20000 then 2 else 3) \<and>
     pmic_status d' =
       (if currentIntLvl d = INTLVL_NONE then pmic_status d
        else unset_bit (lvl_num (currentIntLvl d) - 1) (pmic_status d)) \<and>
     messages d' =
       (if currentIntLvl d = INTLVL_NONE
        then messages d @ [(CRITICAL, ''RETI but no active interruption'')] else messages d) \<and>
     sp d' = sp d + (if flash_size d \<le> 0x20000 then 2 else 3) \<and>
     pc d' = (if flash_size d \<le> 0x20000 then stack_get16 k p (sram_data d)
              else stack_get24 k p (sram_data d)) \<and>
     sreg d' = sreg d \<and> sram_data d' = sram_data d \<and> regfile d' = regfile d"
  using assms
  by (auto simp: executeNextInstruction_def decode_RETI exec_RETI_def pop_pc_def Let_def
      currentIntLvl_cases log_msg_def stack_def nmiex_def hilvlex_def medlvlex_def lolvlex_def
      split: if_splits)

theorem RETI_clears_highest_witness:
  "flash_at dev_reti (pc dev_reti) = Some 0x9518 \<and>
   stack (dev_reti\<lparr>sp := sp dev_reti + 2\<rparr>) = Some 7 \<and>
   currentIntLvl dev_reti = INTLVL_HI \<and>
   (\<exists>d'. executeNextInstruction stack0 no_other dev_reti = Inr (d', 2) \<and>
      pmic_status d' = 1 \<and> messages d' = [] \<and> sp d' = 0x2007 \<and> pc d' = 0x0123 \<and>
      sreg d' = sreg dev_reti)"
proof -
  have h: "flash_at dev_reti (pc dev_reti) = Some 0x9518"
    "stack (dev_reti\<lparr>sp := sp dev_reti + (if flash_size dev_reti \<le> 0x20000 then 2 else 3)\<rparr>) = Some 7"
    by (simp_all add: flash_at_def stack_def MEM_SRAM_START_def dev_reti_def sample_defs)
  have c: "currentIntLvl dev_reti = INTLVL_HI"
    by (simp add: currentIntLvl_def dev_reti_def sample_defs)
  have f: "flash_size dev_reti \<le> 0x20000" "pmic_status dev_reti = 5" "messages dev_reti = []"
    "sp dev_reti = 0x2005" "stack_get16 stack0 7 (sram_data dev_reti) = 0x0123"
    by (simp_all add: dev_reti_def sample_defs)
  show ?thesis
    using RETI_clears_highest [OF h, of stack0 no_other] h c f
    by auto
qed


section \<open>PUSH and POP\<close>

lemma decode_PUSH_all: "\<forall>r \<in> set [0..<32]. decode (0x920F OR push_bit 4 (word_of_nat r)) = PUSH"
  by code_simp

lemma decode_POP_all: "\<forall>r \<in> set [0..<32]. decode (0x900F OR push_bit 4 (word_of_nat r)) = POP"
  by code_simp

lemma reg_PUSH_all:
  "\<forall>r \<in> set [0..<32]. unat (drop_bit 4 (0x920F OR push_bit 4 (word_of_nat r) :: 16 word) AND 0x1F) = r"
  by code_simp

lemma reg_POP_all:
  "\<forall>r \<in> set [0..<32]. unat (drop_bit 4 (0x900F OR push_bit 4 (word_of_nat r) :: 16 word) AND 0x1F) = r"
  by code_simp

text \<open>
  Claim C9. For registers \<open>r\<close> and \<open>r'\<close> and SP within the SRAM, PUSH r followed
  by POP r' stores the value of \<open>r\<close> into \<open>r'\<close> and returns SP to its initial
  value: PUSH writes the byte addressed by SP and decrements SP; POP increments SP and
  reads the byte addressed by SP.
\<close>

theorem PUSH_POP_roundtrip:
  assumes r: "r < 32" and r': "r' < 32"
    and f0: "flash_at d (pc d) = Some (0x920F OR push_bit 4 (word_of_nat r))"
    and f1: "flash_at d (pc d + 1) = Some (0x900F OR push_bit 4 (word_of_nat r'))"
    and st: "stack d = Some p"
  shows "\<exists>d1 d2. executeNextInstruction k other d = Inr (d1, 1) \<and>
           executeNextInstruction k other d1 = Inr (d2, 1) \<and>
           sram_data d1 = (sram_data d)[p := regfile d r] \<and> sp d1 = sp d - 1 \<and>
           regfile d2 = (regfile d)(r' := regfile d r) \<and> sp d2 = sp d \<and>
           sram_data d2 = sram_data d1 \<and> pc d2 = pc d + 2"
proof -
  define opP :: "16 word" where "opP = 0x920F OR push_bit 4 (word_of_nat r)"
  define opQ :: "16 word" where "opQ = 0x900F OR push_bit 4 (word_of_nat r')"
  from r have dP: "decode opP = PUSH" and rP: "unat (drop_bit 4 opP AND 0x1F) = r"
    unfolding opP_def using decode_PUSH_all reg_PUSH_all by simp_all
  from r' have dQ: "decode opQ = POP" and rQ: "unat (drop_bit 4 opQ AND 0x1F) = r'"
    unfolding opQ_def using decode_POP_all reg_POP_all by simp_all
  note f0 = f0 [folded opP_def] and f1 = f1 [folded opQ_def]
  from st have p: "p < length (sram_data d)"
    by (simp add: stack_def split: if_splits)
  define d1 where "d1 = d\<lparr>sram_data := (sram_data d)[p := regfile d r], sp := sp d - 1,
                     pc := pc d + 1\<rparr>"
  have e1: "executeNextInstruction k other d = Inr (d1, 1)"
    by (simp add: executeNextInstruction_def f0 dP exec_PUSH_def rP st d1_def)
  have f1': "flash_at d1 (pc d1) = Some opQ"
    using f1 by (simp add: d1_def flash_at_def split: if_splits)
  have st1: "stack (d1\<lparr>sp := sp d1 + 1\<rparr>) = Some p"
    using st by (simp add: d1_def stack_def split: if_splits)
  define d2 where "d2 = d1\<lparr>sp := sp d, regfile := (regfile d)(r' := regfile d r), pc := pc d + 2\<rparr>"
  have e2: "executeNextInstruction k other d1 = Inr (d2, 1)"
    using p by (simp add: executeNextInstruction_def f1' dQ exec_POP_def rQ st1 Let_def)
      (simp add: d1_def d2_def)
  show ?thesis
    using e1 e2 by (simp add: d1_def d2_def)
qed

theorem PUSH_POP_roundtrip_witness:
  "(17 :: nat) < 32 \<and> (18 :: nat) < 32 \<and>
   flash_at dev_stack (pc dev_stack) = Some (0x920F OR push_bit 4 (word_of_nat 17)) \<and>
   flash_at dev_stack (pc dev_stack + 1) = Some (0x900F OR push_bit 4 (word_of_nat 18)) \<and>
   stack dev_stack = Some 7 \<and> regfile dev_stack 17 = 0xAB \<and>
   (\<exists>d1 d2. executeNextInstruction stack0 no_other dev_stack = Inr (d1, 1) \<and>
      executeNextInstruction stack0 no_other d1 = Inr (d2, 1) \<and>
      sram_data d1 = [0, 0, 0, 0, 0, 0, 0, 0xAB] \<and> sp d1 = 0x2006 \<and>
      regfile d2 18 = 0xAB \<and> sp d2 = 0x2007)"
proof -
  have h: "(17 :: nat) < 32" "(18 :: nat) < 32"
    "flash_at dev_stack (pc dev_stack) = Some (0x920F OR push_bit 4 (word_of_nat 17))"
    "flash_at dev_stack (pc dev_stack + 1) = Some (0x900F OR push_bit 4 (word_of_nat 18))"
    "stack dev_stack = Some 7"
    by (simp_all add: flash_at_def stack_def MEM_SRAM_START_def dev_stack_def sample_defs)
  have f: "regfile dev_stack 17 = 0xAB" "sram_data dev_stack = [0, 0, 0, 0, 0, 0, 0, 0]"
    "sp dev_stack = 0x2007"
    by (simp_all add: dev_stack_def sample_defs)
  from PUSH_POP_roundtrip [OF h, of stack0 no_other]
  obtain d1 d2 where "executeNextInstruction stack0 no_other dev_stack = Inr (d1, 1)"
    "executeNextInstruction stack0 no_other d1 = Inr (d2, 1)"
    "sram_data d1 = (sram_data dev_stack)[7 := regfile dev_stack 17]" "sp d1 = sp dev_stack - 1"
    "regfile d2 = (regfile dev_stack)(18 := regfile dev_stack 17)" "sp d2 = sp dev_stack"
    by blast
  then have "executeNextInstruction stack0 no_other dev_stack = Inr (d1, 1) \<and>
      executeNextInstruction stack0 no_other d1 = Inr (d2, 1) \<and>
      sram_data d1 = [0, 0, 0, 0, 0, 0, 0, 0xAB] \<and> sp d1 = 0x2006 \<and>
      regfile d2 18 = 0xAB \<and> sp d2 = 0x2007"
    by (simp add: f)
  then show ?thesis using h f by blast
qed

section \<open>Skip instructions\<close>

text \<open>
  Claim C2 at SBRC r0,0 with bit 0 of r0 clear, followed by a one-word instruction: the
  PC advances by 2 words and the instruction returns 3 cycles, where CPSE returns 2.
\<close>

theorem SBRC_skip_over_16bit_takes_3_cycles:
  "decode 0xFC00 = SBRC_SBRS \<and> \<not> bit (regfile dev_sbrc 0) 0 \<and>
   \<not> opcode_is_32b (flash_data dev_sbrc ! 1) \<and>
   executeNextInstruction stack0 no_other dev_sbrc = Inr (dev_sbrc\<lparr>pc := 2\<rparr>, 3) \<and>
   decode 0x1000 = CPSE \<and>
   executeNextInstruction stack0 no_other dev_cpse = Inr (dev_cpse\<lparr>pc := 2\<rparr>, 2)"
  by (simp add: executeNextInstruction_def flash_at_def decode_def exec_SBRC_SBRS_def
      exec_CPSE_def skip_next_def opcode_is_32b_def dev_sbrc_def dev_cpse_def sample_defs)

section \<open>FMULSU\<close>

lemma decode_never_FMULSU: "decode opcode \<noteq> FMULSU"
  by (simp add: decode_def)

lemma FMULSU_encoding_unknown:
  "\<forall>d \<in> set [0..<8]. \<forall>r \<in> set [0..<8].
     decode (0x0388 OR push_bit 4 (word_of_nat d) OR word_of_nat r) = UNKNOWN"
  by code_simp

text \<open>
  Claim C8 at the opcode 0x0389 (FMULSU r16,r17) with r16 = 0xFF and r17 = 2: the
  opcode is decoded as unknown, r1:r0 and the flags are unchanged and the instruction
  returns 1 cycle.
\<close>

theorem FMULSU_opcode_is_unknown:
  "(0x0389 :: 16 word) AND 0xFF88 = 0x0388 \<and> decode 0x0389 = UNKNOWN \<and>
   executeNextInstruction stack0 no_other dev_fmulsu =
     Inr (dev_fmulsu\<lparr>messages := [(CRITICAL, ''unknown opcode'')], pc := 1\<rparr>, 1)"
  by (simp add: executeNextInstruction_def flash_at_def decode_def log_msg_def
      dev_fmulsu_def sample_defs)


section \<open>The heap functions\<close>

text \<open>
  The three heap functions keep the length and the elements of the range, and
  \<open>push_heap\<close> and \<open>pop_heap\<close> keep the heap property under a strict weak
  ordering.
\<close>

declare push_heap_aux.simps [simp del] adjust_down.simps [simp del]

text \<open>Index arithmetic of the implicit binary tree.\<close>

lemma second_child_less:
  fixes h len :: nat
  assumes "h < (len - 1) div 2"
  shows "2 * (h + 1) < len"
proof -
  from assms have "h + 1 \<le> (len - 1) div 2" by simp
  then have "2 * (h + 1) \<le> 2 * ((len - 1) div 2)" by (rule mult_le_mono2)
  also have "\<dots> \<le> len - 1" by simp
  finally have "2 * (h + 1) \<le> len - 1" .
  moreover from assms have "0 < len" by (cases len) simp_all
  ultimately show ?thesis by simp
qed


lemma even_len_last_child:
  fixes len h' :: nat
  assumes "len mod 2 = 0 \<and> 2 \<le> len \<and> h' = (len - 2) div 2"
  shows "2 * (h' + 1) - 1 < len" "h' < 2 * (h' + 1) - 1"
    "(2 * (h' + 1) - 1 - 1) div 2 = h'" "0 < 2 * (h' + 1) - 1"
    "2 * (h' + 1) - 1 = len - 1"
proof -
  from assms obtain m where m: "len = 2 * m" by (auto simp: mod_eq_0_iff_dvd)
  with assms have m1: "1 \<le> m" by simp
  from m m1 assms have h: "h' = m - 1" by simp
  show "2 * (h' + 1) - 1 = len - 1" using h m m1 by simp
  show "2 * (h' + 1) - 1 < len" using h m m1 by simp
  show "h' < 2 * (h' + 1) - 1" by simp
  show "(2 * (h' + 1) - 1 - 1) div 2 = h'" by simp
  show "0 < 2 * (h' + 1) - 1" by simp
qed




lemma length_push_heap_aux [simp]: "length (push_heap_aux cmp xs h t v) = length xs"
  by (induction cmp xs h t v rule: push_heap_aux.induct)
     (subst push_heap_aux.simps, simp)

lemma mset_update_swap:
  assumes "h < length xs" "p < length xs"
  shows "mset (xs[h := xs ! p, p := v]) = mset (xs[h := v])"
proof (cases "p = h")
  case True
  then show ?thesis using assms by simp
next
  case False
  let ?ls = "xs[h := v]"
  have "mset (?ls[h := ?ls ! p, p := ?ls ! h]) = mset ?ls"
    using assms by (intro mset_swap) simp_all
  moreover have "?ls[h := ?ls ! p, p := ?ls ! h] = xs[h := xs ! p, p := v]"
    using assms False by simp
  ultimately show ?thesis by simp
qed

lemma mset_push_heap_aux:
  "h < length xs \<Longrightarrow> mset (push_heap_aux cmp xs h t v) = mset (xs[h := v])"
proof (induction cmp xs h t v rule: push_heap_aux.induct)
  case (1 cmp first holeIndex topIndex v)
  let ?p = "(holeIndex - 1) div 2"
  show ?case
  proof (cases "holeIndex > topIndex \<and> cmp (first ! ?p) v")
    case True
    then have p: "?p < length first" using 1(2) by auto
    have "mset (push_heap_aux cmp (first[holeIndex := first ! ?p]) ?p topIndex v) =
          mset (first[holeIndex := first ! ?p, ?p := v])"
      using 1(1) [OF True] p by simp
    also have "\<dots> = mset (first[holeIndex := v])"
      using 1(2) p by (rule mset_update_swap)
    finally show ?thesis using True by (subst push_heap_aux.simps) simp
  next
    case False
    then show ?thesis by (subst push_heap_aux.simps) auto
  qed
qed

lemma adjust_down_props:
  assumes "adjust_down cmp xs h len = (ys, h')" "h < len" "len \<le> length xs"
  shows "length ys = length xs \<and> h \<le> h' \<and> h' < len \<and> \<not> h' < (len - 1) div 2 \<and>
         (\<forall>v. mset (ys[h' := v]) = mset (xs[h := v]))"
  using assms
proof (induction cmp xs h len arbitrary: ys h' rule: adjust_down.induct)
  case (1 cmp first holeIndex len)
  show ?case
  proof (cases "holeIndex < (len - 1) div 2")
    case False
    with 1(2,3) show ?thesis by (subst (asm) adjust_down.simps) auto
  next
    case True
    define sc where "sc = 2 * (holeIndex + 1)"
    define c where "c = (if cmp (first ! sc) (first ! (sc - 1)) then sc - 1 else sc)"
    from True have sc: "sc < len" unfolding sc_def by (rule second_child_less)
    then have c: "c < len" "holeIndex < c" unfolding c_def sc_def by auto
    from 1(2) True have r: "adjust_down cmp (first[holeIndex := first ! c]) c len = (ys, h')"
      by (subst (asm) adjust_down.simps) (auto simp: Let_def sc_def c_def split: if_splits)
    have ih: "length ys = length (first[holeIndex := first ! c]) \<and> c \<le> h' \<and> h' < len \<and>
       \<not> h' < (len - 1) div 2 \<and>
       (\<forall>v. mset (ys[h' := v]) = mset (first[holeIndex := first ! c, c := v]))"
      using 1(1) [OF True sc_def c_def r c(1)] 1(4) by simp
    have "mset (first[holeIndex := first ! c, c := v]) = mset (first[holeIndex := v])" for v
      using 1(3,4) c by (intro mset_update_swap) simp_all
    with ih c show ?thesis by simp
  qed
qed

lemma adjust_heap_unfold:
  assumes "adjust_down cmp xs hole len = (ys, h')"
  shows "adjust_heap cmp xs hole len v =
     (if len mod 2 = 0 \<and> 2 \<le> len \<and> h' = (len - 2) div 2
      then push_heap_aux cmp (ys[h' := ys ! (2 * (h' + 1) - 1)]) (2 * (h' + 1) - 1) hole v
      else push_heap_aux cmp ys h' hole v)"
  by (simp add: adjust_heap_def assms)

lemma adjust_heap_props:
  assumes "hole < len" "len \<le> length xs"
  shows "length (adjust_heap cmp xs hole len v) = length xs"
    and "mset (adjust_heap cmp xs hole len v) = mset (xs[hole := v])"
proof -
  obtain ys h' where a: "adjust_down cmp xs hole len = (ys, h')" by force
  from adjust_down_props [OF a assms]
  have p: "length ys = length xs" "h' < len" "\<And>v. mset (ys[h' := v]) = mset (xs[hole := v])"
    by simp_all
  show "length (adjust_heap cmp xs hole len v) = length xs"
    by (simp add: adjust_heap_unfold [OF a] p(1))
  show "mset (adjust_heap cmp xs hole len v) = mset (xs[hole := v])"
  proof (cases "len mod 2 = 0 \<and> 2 \<le> len \<and> h' = (len - 2) div 2")
    case False
    have "adjust_heap cmp xs hole len v = push_heap_aux cmp ys h' hole v"
      unfolding adjust_heap_unfold [OF a] using False by (rule if_not_P)
    then show ?thesis
      using p assms by (simp add: mset_push_heap_aux)
  next
    case True
    let ?c = "2 * (h' + 1) - 1"
    from True have c: "?c < len" by (rule even_len_last_child)
    have "adjust_heap cmp xs hole len v = push_heap_aux cmp (ys[h' := ys ! ?c]) ?c hole v"
      unfolding adjust_heap_unfold [OF a] using True by (rule if_P)
    then have "mset (adjust_heap cmp xs hole len v) = mset (ys[h' := ys ! ?c, ?c := v])"
      using c p assms by (simp add: mset_push_heap_aux)
    also have "\<dots> = mset (ys[h' := v])"
      using p assms c by (intro mset_update_swap) simp_all
    finally show ?thesis by (simp add: p)
  qed
qed


















lemma make_heap_from_props:
  "parent < length xs \<Longrightarrow>
     length (make_heap_from cmp xs parent) = length xs \<and>
     mset (make_heap_from cmp xs parent) = mset xs"
proof (induction parent arbitrary: xs)
  case 0
  then show ?case by (simp add: adjust_heap_props)
next
  case (Suc parent)
  let ?ys = "adjust_heap cmp xs (Suc parent) (length xs) (xs ! Suc parent)"
  have l: "length ?ys = length xs" and m: "mset ?ys = mset xs"
    using Suc.prems by (simp_all add: adjust_heap_props)
  from Suc.prems l have "parent < length ?ys" by simp
  from Suc.IH [OF this] l m show ?case by simp
qed

lemma make_heap_props:
  "length (make_heap cmp xs) = length xs" "mset (make_heap cmp xs) = mset xs"
proof -
  have "length (make_heap cmp xs) = length xs \<and> mset (make_heap cmp xs) = mset xs"
  proof (cases "length xs < 2")
    case True
    then show ?thesis by (simp add: make_heap_def)
  next
    case False
    then have "(length xs - 2) div 2 < length xs" by simp
    from make_heap_from_props [OF this] False show ?thesis by (simp add: make_heap_def)
  qed
  then show "length (make_heap cmp xs) = length xs" "mset (make_heap cmp xs) = mset xs"
    by simp_all
qed

lemmas heap_eval = push_heap_def pop_heap_def adjust_heap_def push_heap_aux.simps
  adjust_down.simps clock_queue_cmp_def Let_def

lemmas sched_eval = schedule_def heap_eval ev_at_def sch0_def clk0_def


section \<open>Firing order within one step\<close>



lemma fires_before_same:
  "priority a = priority b \<Longrightarrow> inserted a = inserted b \<Longrightarrow> fires_before a c = fires_before b c"
  "priority a = priority b \<Longrightarrow> inserted a = inserted b \<Longrightarrow> fires_before c a = fires_before c b"
  by (auto simp: fires_before_def)
















section \<open>Clock configuration change\<close>

lemma pow2_scaleE:
  assumes "pow2_scale w"
  obtains n where "n < 32" "w = 2 ^ n" "unat w = 2 ^ n"
proof -
  from assms obtain n where n: "n < 32" "w = 2 ^ n"
    by (auto simp: pow2_scale_def)
  have "(2::32 word) ^ n = word_of_nat (2 ^ n)" by simp
  then have "unat ((2::32 word) ^ n) = 2 ^ n mod 2 ^ 32"
    by (simp only: unat_of_nat) simp
  moreover have "(2::nat) ^ n < 2 ^ 32"
    using n(1) by (intro power_strict_increasing) simp_all
  ultimately have "unat w = 2 ^ n" using n(2) by simp
  with n that show ?thesis by blast
qed

lemma ceil_div_exact: "0 < b \<Longrightarrow> (d * b + b - 1) div b = (d::nat)"
proof -
  assume "0 < b"
  then have e: "d * b + b - 1 = d * b + (b - 1)" by simp
  have "(d * b + (b - 1)) div b = d + (b - 1) div b"
    using \<open>0 < b\<close> by (intro div_mult_self3) simp
  also have "(b - 1) div b = 0" using \<open>0 < b\<close> by simp
  finally show ?thesis unfolding e by simp
qed

lemma pow2_multiple_bound:
  fixes a :: nat
  assumes "n \<le> m" "a < 2 ^ m" "a mod 2 ^ n = 0"
  shows "a + 2 ^ n \<le> 2 ^ m"
proof -
  from assms(3) obtain q where q: "a = 2 ^ n * q" by (auto simp: mod_eq_0_iff_dvd)
  have e: "(2::nat) ^ m = 2 ^ n * 2 ^ (m - n)"
    using assms(1) by (simp flip: power_add)
  from assms(2) have "q < 2 ^ (m - n)" unfolding q e by simp
  then have "q + 1 \<le> 2 ^ (m - n)" by simp
  then have "2 ^ n * (q + 1) \<le> (2::nat) ^ n * 2 ^ (m - n)" by (rule mult_le_mono2)
  then show ?thesis unfolding q e by simp
qed

lemma aligned_ceil:
  fixes x s :: "32 word"
  assumes p: "pow2_scale s" and al: "x mod s = 0"
  shows "unat ((x + s - 1) div s) = (unat x + unat s - 1) div unat s"
    and "(unat x + unat s - 1) div unat s = unat x div unat s"
    and "unat x div unat s * unat s = unat x"
proof -
  from p obtain n where n: "n < 32" "s = 2 ^ n" "unat s = 2 ^ n" by (rule pow2_scaleE)
  from al have "unat (x mod s) = 0" by simp
  then have m: "unat x mod 2 ^ n = 0" by (simp add: unat_mod flip: n(3))
  then obtain q where q: "unat x = 2 ^ n * q" by (auto simp: mod_eq_0_iff_dvd)
  have lt: "unat x < 2 ^ 32" using unsigned_less [of x, where ?'a = nat] by simp
  have b: "unat x + 2 ^ n \<le> 2 ^ 32"
    using n(1) lt m by (intro pow2_multiple_bound) simp_all
  have nz: "s \<noteq> 0" using n(3) by (metis power_not_zero unat_0 zero_neq_numeral)
  have s1: "unat (s - 1) = 2 ^ n - 1"
    using nz n(3) by (simp add: unat_minus_one)
  have "unat x + unat (s - 1) < 2 ^ LENGTH(32)"
    using b s1 by simp
  then have "unat (x + (s - 1)) = unat x + unat (s - 1)"
    by (rule unat_add_lem [THEN iffD1])
  then have u: "unat (x + s - 1) = unat x + 2 ^ n - 1"
    using s1 by (simp add: add_diff_eq)
  show "unat ((x + s - 1) div s) = (unat x + unat s - 1) div unat s"
    by (simp add: unat_div u n(3))
  have "(q * 2 ^ n + 2 ^ n - 1) div 2 ^ n = q"
    by (rule ceil_div_exact) simp
  then show "(unat x + unat s - 1) div unat s = unat x div unat s"
    by (simp add: q n(3) mult.commute)
  show "unat x div unat s * unat s = unat x"
    by (simp add: q n(3))
qed

lemma rescale_aligned:
  assumes d: "scale ev \<noteq> getClockScale c (clock ev)"
    and p: "pow2_scale (scale ev)"
    and al: "(tick ev - now) mod scale ev = 0"
  shows "rescale c now ev =
     Inr (ev\<lparr>tick := now + word_of_nat (domain_ticks_left now ev) * getClockScale c (clock ev),
              scale := getClockScale c (clock ev)\<rparr>)"
proof -
  from p obtain n where n: "n < 32" "scale ev = 2 ^ n" "unat (scale ev) = 2 ^ n"
    by (rule pow2_scaleE)
  then have nz: "scale ev \<noteq> 0" by (metis unat_0 power_not_zero zero_neq_numeral)
  have "word_of_nat (domain_ticks_left now ev) = (tick ev - now + scale ev - 1) div scale ev"
    unfolding domain_ticks_left_def
    using aligned_ceil(1) [OF p al, symmetric] by simp
  then show ?thesis
    using d nz al by (simp add: rescale_def Let_def)
qed

lemma rescale_preserves:
  assumes p: "pow2_scale (scale ev)"
    and al: "(tick ev - now) mod scale ev = 0"
    and nz: "new \<noteq> 0"
    and fit: "domain_ticks_left now ev * unat new < 2 ^ 32"
  shows "domain_ticks_left now
           (ev\<lparr>tick := now + word_of_nat (domain_ticks_left now ev) * new, scale := new\<rparr>)
         = domain_ticks_left now ev"
proof -
  let ?dt = "domain_ticks_left now ev"
  have pos: "0 < unat new" using nz by (simp add: unat_gt_0)
  then have "?dt \<le> ?dt * unat new" by simp
  from this fit have dt: "?dt < 2 ^ 32" by (rule le_less_trans)
  then have u: "unat (word_of_nat ?dt :: 32 word) = ?dt"
    by (simp add: unat_of_nat)
  have "unat (word_of_nat ?dt * new) = ?dt * unat new"
    using fit by (simp add: unat_mult_lem [THEN iffD1] u)
  moreover have "(?dt * unat new + unat new - 1) div unat new = ?dt"
    using pos by (rule ceil_div_exact)
  ultimately show ?thesis
    by (simp add: domain_ticks_left_def)
qed

lemma pow2_scaleI: "n < 32 \<Longrightarrow> pow2_scale (2 ^ n)"
  by (simp add: pow2_scale_def)

lemma getClockScale_pow2:
  assumes "clk_valid c"
  shows "pow2_scale (getClockScale c ct)" and "getClockScale c ct \<noteq> 0"
proof -
  from assms obtain a b d where e: "a < 10" "b < 5" "d < 2"
    "prescalerA_div c = 2 ^ a" "prescalerB_div c = 2 ^ b" "prescalerC_div c = 2 ^ d"
    by (auto simp: clk_valid_def)
  have "\<exists>n<32. getClockScale c ct = 2 ^ n"
  proof (cases ct)
    case SYS then show ?thesis by (auto intro: exI [of _ 0])
  next
    case CPU
    then have "getClockScale c ct = 2 ^ (a + b + d)" by (simp add: e power_add)
    moreover have "a + b + d < 32" using e by simp
    ultimately show ?thesis by blast
  next
    case PER
    then have "getClockScale c ct = 2 ^ (a + b + d)" by (simp add: e power_add)
    moreover have "a + b + d < 32" using e by simp
    ultimately show ?thesis by blast
  next
    case PER2
    then have "getClockScale c ct = 2 ^ (a + b)" by (simp add: e power_add)
    moreover have "a + b < 32" using e by simp
    ultimately show ?thesis by blast
  next
    case PER4
    then have "getClockScale c ct = 2 ^ a" by (simp add: e)
    moreover have "a < 32" using e by simp
    ultimately show ?thesis by blast
  next
    case ASY then show ?thesis by (auto intro: exI [of _ 0])
  qed
  then obtain n where n: "n < 32" "getClockScale c ct = 2 ^ n" by blast
  then show p: "pow2_scale (getClockScale c ct)" by (simp add: pow2_scaleI)
  from p obtain m where "unat (getClockScale c ct) = 2 ^ m" by (rule pow2_scaleE)
  then show "getClockScale c ct \<noteq> 0" by (metis power_not_zero unat_0 zero_neq_numeral)
qed

lemma CLK_reset_valid: "clk_valid (CLK_reset k c)"
  by (simp add: clk_valid_def CLK_reset_def image_iff) (auto intro: bexI [of _ 0])

lemma CLK_setIo_valid:
  assumes "clk_valid c" "CLK_setIo k ccp addr v c = Inr c'"
  shows "clk_valid c'"
proof -
  have A: "n \<le> 9 \<Longrightarrow> (push_bit n 1 :: 32 word) \<in> (\<lambda>n. 2 ^ n) ` {0..<10}" for n
    by (simp add: push_bit_eq_mult)
  have B: "(push_bit (4 - n) 1 :: 32 word) \<in> (\<lambda>n. 2 ^ n) ` {0..<5}" for n
    by (simp add: push_bit_eq_mult)
  have B1: "(1 :: 32 word) \<in> (\<lambda>n. 2 ^ n) ` {0..<5}"
    by (rule image_eqI [where x = 0]) simp_all
  have "unat (w AND 1) < 2" for w :: "8 word"
  proof -
    have "w AND 1 \<le> 1" by (rule word_and_le1)
    then have "unat (w AND 1) \<le> unat (1 :: 8 word)" by (simp only: word_le_nat_alt)
    then show ?thesis by simp
  qed
  then have C: "(push_bit (unat (w AND 1)) 1 :: 32 word) \<in> (\<lambda>n. 2 ^ n) ` {0..<2}" for w :: "8 word"
    by (simp add: push_bit_eq_mult)
  show ?thesis
    using assms A B B1 C
    by (auto simp: CLK_setIo_def clk_valid_def clk_log_def Let_def split: if_splits)
qed

lemma rescale_spec:
  assumes "scale ev \<noteq> getClockScale c (clock ev)" "rescalable c now ev"
  shows "rescale c now ev = Inr (spec_rescaled c now ev)"
  using assms rescale_aligned [of ev c now] by (simp add: rescalable_def spec_rescaled_def)

lemma spec_rescaled_ticks:
  assumes "rescalable c now ev"
  shows "domain_ticks_left now (spec_rescaled c now ev) = domain_ticks_left now ev"
  using assms rescale_preserves [of ev now "getClockScale c (clock ev)"]
  by (simp add: rescalable_def spec_rescaled_def)

lemma rescale_all_spec:
  assumes "\<forall>ev \<in> set q. scale ev \<noteq> getClockScale c (clock ev) \<longrightarrow> rescalable c now ev"
  shows "rescale_all c now q =
     Inr (map (\<lambda>ev. if scale ev = getClockScale c (clock ev) then ev
                     else spec_rescaled c now ev) q)"
  using assms
proof (induction q)
  case Nil
  then show ?case by simp
next
  case (Cons ev q)
  have "rescale c now ev =
      Inr (if scale ev = getClockScale c (clock ev) then ev else spec_rescaled c now ev)"
  proof (cases "scale ev = getClockScale c (clock ev)")
    case True
    then show ?thesis by (simp add: rescale_def)
  next
    case False
    with Cons.prems show ?thesis by (simp add: rescale_spec)
  qed
  with Cons show ?case by simp
qed

lemma pow2_scale_1: "pow2_scale 1"
  unfolding pow2_scale_def by (rule image_eqI [where x = 0]) simp_all

text \<open>
  Claim C4, amended. Let every queued event whose scale differs from the current scale
  of its clock have a power of two as its old scale (as every scale that CLK produces
  is), let \<open>tick - current_sys_tick\<close> be divisible by that old scale, the new scale
  be non-zero and \<open>dt * new_scale\<close> be below \<open>2^32\<close>, where \<open>dt\<close> is
  \<open>(tick - current_sys_tick) / old_scale\<close> rounded up. Then
  \<open>onClockConfigChange\<close> returns, the queue holds the events whose scale did not
  differ as they were and every other event with its tick set to
  \<open>current_sys_tick + dt * new_scale\<close> and its scale to the new scale, and the number
  of domain ticks until firing is the same for every event of the queue.
\<close>

theorem onClockConfigChange_keeps_domain_ticks:
  assumes "\<forall>ev \<in> set (clk_sys_queue s).
     scale ev \<noteq> getClockScale (clk s) (clock ev) \<longrightarrow> rescalable (clk s) (clk_sys_tick s) ev"
  shows "\<exists>q. onClockConfigChange s = Inr (s\<lparr>clk_sys_queue := q\<rparr>) \<and>
     mset q = image_mset (\<lambda>ev. if scale ev = getClockScale (clk s) (clock ev) then ev
                                else spec_rescaled (clk s) (clk_sys_tick s) ev)
                (mset (clk_sys_queue s)) \<and>
     image_mset (domain_ticks_left (clk_sys_tick s)) (mset q) =
     image_mset (domain_ticks_left (clk_sys_tick s)) (mset (clk_sys_queue s))"
proof -
  let ?g = "\<lambda>ev. if scale ev = getClockScale (clk s) (clock ev) then ev
                  else spec_rescaled (clk s) (clk_sys_tick s) ev"
  let ?q = "make_heap clock_queue_cmp (map ?g (clk_sys_queue s))"
  have r: "onClockConfigChange s = Inr (s\<lparr>clk_sys_queue := ?q\<rparr>)"
    by (simp add: onClockConfigChange_def rescale_all_spec [OF assms])
  have m: "mset ?q = image_mset ?g (mset (clk_sys_queue s))"
    by (simp add: make_heap_props)
  have "domain_ticks_left (clk_sys_tick s) (?g ev) = domain_ticks_left (clk_sys_tick s) ev"
    if "ev \<in># mset (clk_sys_queue s)" for ev
    using that assms by (simp add: spec_rescaled_ticks)
  then have "image_mset (domain_ticks_left (clk_sys_tick s)) (image_mset ?g (mset (clk_sys_queue s)))
      = image_mset (domain_ticks_left (clk_sys_tick s)) (mset (clk_sys_queue s))"
    unfolding image_mset.compositionality comp_def by (intro image_mset_cong)
  with r m show ?thesis by (intro exI [of _ ?q]) simp
qed

text \<open>
  The theorem at a CPU event 4 ticks ahead and a SYS event 9 ticks ahead, when
  prescaler A goes from 1 to 4: the CPU event moves to tick 16 and is still 4 CPU
  ticks ahead.
\<close>

theorem onClockConfigChange_keeps_domain_ticks_witness:
  "scale ev_cpu \<noteq> getClockScale clk_div4 (clock ev_cpu) \<and>
   rescalable clk_div4 0 ev_cpu \<and>
   scale ev_sys = getClockScale clk_div4 (clock ev_sys) \<and>
   (\<exists>q. onClockConfigChange (sch0\<lparr>clk_sys_queue := [ev_cpu, ev_sys], clk := clk_div4,
                                     n_scheduled := 2\<rparr>) =
          Inr (sch0\<lparr>clk_sys_queue := q, clk := clk_div4, n_scheduled := 2\<rparr>) \<and>
        mset q = {#ev_cpu\<lparr>tick := 16, scale := 4\<rparr>, ev_sys#} \<and>
        image_mset (domain_ticks_left 0) (mset q) = {#4, 9#})"
proof -
  let ?s = "sch0\<lparr>clk_sys_queue := [ev_cpu, ev_sys], clk := clk_div4, n_scheduled := 2\<rparr>"
  have d: "domain_ticks_left 0 ev_cpu = 4" "domain_ticks_left 0 ev_sys = 9"
    by (simp_all add: domain_ticks_left_def ev_cpu_def ev_sys_def)
  have g: "getClockScale clk_div4 (clock ev_cpu) = 4" "getClockScale clk_div4 (clock ev_sys) = 1"
    by (simp_all add: ev_cpu_def ev_sys_def clk_div4_def clk0_def)
  have sc: "scale ev_cpu = 1" "scale ev_sys = 1" "tick ev_cpu = 4"
    by (simp_all add: ev_cpu_def ev_sys_def)
  have r: "rescalable clk_div4 0 ev_cpu"
    by (simp add: rescalable_def g d sc pow2_scale_1)
  have h: "\<forall>ev \<in> set (clk_sys_queue ?s).
     scale ev \<noteq> getClockScale (clk ?s) (clock ev) \<longrightarrow> rescalable (clk ?s) (clk_sys_tick ?s) ev"
    using r by (simp add: g sc sch0_def)
  have sp: "spec_rescaled clk_div4 0 ev_cpu = ev_cpu\<lparr>tick := 16, scale := 4\<rparr>"
    by (simp add: spec_rescaled_def g d)
  show ?thesis
    using onClockConfigChange_keeps_domain_ticks [OF h] r
    by (simp add: g sc sp d sch0_def)
qed

text \<open>
  Claim C4 as stated fails: an event of the CPU clock scheduled \<open>2^31\<close> ticks ahead
  at scale 1 is aligned; when prescaler A is set to 2, \<open>dt * new_scale\<close> wraps
  around to 0, the event is due at the current tick, and 0 of its \<open>2^31\<close> domain
  ticks are left.
\<close>

theorem rescaled_tick_wraps_around:
  "schedule CPU 0 0x80000000 100 sch0 =
     Inr (sch0\<lparr>clk_sys_queue := [ev_far], n_scheduled := 1\<rparr>) \<and>
   CLK_setIo clk_decls0 0 1 4 clk0 = Inr clk_div2 \<and>
   scale ev_far \<noteq> getClockScale clk_div2 (clock ev_far) \<and>
   (tick ev_far - 0) mod scale ev_far = 0 \<and>
   onClockConfigChange (sch0\<lparr>clk_sys_queue := [ev_far], clk := clk_div2, n_scheduled := 1\<rparr>) =
     Inr (sch0\<lparr>clk_sys_queue := [ev_far\<lparr>tick := 0, scale := 2\<rparr>], clk := clk_div2,
               n_scheduled := 1\<rparr>) \<and>
   domain_ticks_left 0 ev_far = 2147483648 \<and>
   domain_ticks_left 0 (ev_far\<lparr>tick := 0, scale := 2\<rparr>) = 0"
proof -
  have a: "schedule CPU 0 0x80000000 100 sch0 =
     Inr (sch0\<lparr>clk_sys_queue := [ev_far], n_scheduled := 1\<rparr>)"
    by (simp add: sched_eval ev_far_def)
  have b: "CLK_setIo clk_decls0 0 1 4 clk0 = Inr clk_div2"
    by (simp add: CLK_setIo_def clk_decls0_def clk0_def clk_div2_def Let_def)
  have c: "scale ev_far \<noteq> getClockScale clk_div2 (clock ev_far)"
    "(tick ev_far - 0) mod scale ev_far = 0"
    by (simp_all add: ev_far_def clk_div2_def clk0_def)
  have d: "onClockConfigChange (sch0\<lparr>clk_sys_queue := [ev_far], clk := clk_div2, n_scheduled := 1\<rparr>) =
     Inr (sch0\<lparr>clk_sys_queue := [ev_far\<lparr>tick := 0, scale := 2\<rparr>], clk := clk_div2,
               n_scheduled := 1\<rparr>)"
    by (simp add: onClockConfigChange_def rescale_def make_heap_def Let_def
          ev_far_def clk_div2_def clk0_def sch0_def)
  have e: "domain_ticks_left 0 ev_far = 2147483648"
    "domain_ticks_left 0 (ev_far\<lparr>tick := 0, scale := 2\<rparr>) = 0"
    by (simp_all add: domain_ticks_left_def ev_far_def)
  from a b c d e show ?thesis by blast
qed


end
